theory Spec2Isabelle
  imports Main "HOL-Library.Word"
begin

section \<open>The data pool of libmaxminddb (data-pool.c, data-pool.h)\<close>

text \<open>
  The pool hands out \<open>MMDB_entry_data_list_s\<close> structs from blocks of memory whose
  sizes double, and links them to one list. The C code works on the heap through
  pointers, so the model has an explicit store: every \<open>calloc\<close> creates one cell, a
  pointer is the address of a cell with an element offset, and every access of the code
  is a read or a write of the store that faults where C leaves the behaviour undefined.
\<close>

subsection \<open>Machine integers, pointers and structs\<close>

text \<open>\<open>size_t\<close> on a 64-bit platform; \<open>SIZE_MAX\<close> is \<open>2 ^ 64 - 1\<close>.\<close>

type_synonym size_t = "64 word"

definition SIZE_MAX :: size_t where
  "SIZE_MAX = 18446744073709551615"

type_synonym addr = nat

text \<open>A non-null pointer: the allocation it points into and the element offset. The null
  pointer is \<open>None\<close>.\<close>

type_synonym ptr = "addr \<times> nat"

text \<open>Modelled from the spec: the struct \<open>MMDB_entry_data_list_s\<close> is declared in
  maxminddb.h, which is not among the sources. The spec gives a node a boolean \<open>head\<close>
  marker, a \<open>next\<close> link and an opaque payload owned by the decoder (\<open>entry_data\<close>
  here); data-pool.c reads and writes \<open>head\<close> and \<open>next\<close> only.\<close>

record MMDB_entry_data_list_s =
  head :: bool
  "next" :: "ptr option"
  entry_data :: nat

text \<open>\<open>MMDB_data_pool_s\<close> of data-pool.h. The field \<open>size\<close> is \<open>size_f\<close> here.\<close>

record MMDB_data_pool_s =
  blocks :: "ptr option"
  count :: size_t
  index :: size_t
  size_f :: size_t
  used :: size_t

text \<open>What one allocation holds: a pool struct, an array of block pointers, or an array of
  list elements (a block).\<close>

datatype obj =
    Pool MMDB_data_pool_s
  | Dir "ptr option list"
  | Block "MMDB_entry_data_list_s list"

text \<open>
  The store. \<open>cells\<close> has one entry per allocation ever made, \<open>None\<close> once it is freed;
  \<open>calloc\<close> appends, so a new address is never one in use. \<open>frees\<close> logs the addresses
  given to \<open>free\<close>, in order. \<open>grants\<close> is the answer of the system to the coming
  requests for memory (\<open>True\<close>: granted); a request after the last answer is refused.
\<close>

record heap =
  cells :: "obj option list"
  frees :: "addr list"
  grants :: "bool list"

datatype fault = Invalid_access | Out_of_fuel

text \<open>Sequencing: the first fault ends the run.\<close>

definition bind :: "fault + 'a \<Rightarrow> ('a \<Rightarrow> fault + 'b) \<Rightarrow> fault + 'b" where
  "bind m f = (case m of Inl e \<Rightarrow> Inl e | Inr x \<Rightarrow> f x)"

definition cell :: "heap \<Rightarrow> addr \<Rightarrow> obj option" where
  "cell h a = (if a < length (cells h) then cells h ! a else None)"

definition put :: "heap \<Rightarrow> addr \<Rightarrow> obj \<Rightarrow> heap" where
  "put h a v = h\<lparr>cells := (cells h)[a := Some v]\<rparr>"

subsection \<open>calloc and free\<close>

text \<open>\<open>calloc(nmemb, size)\<close>: \<open>v\<close> is the zeroed object of that many elements. The request
  is refused when \<open>nmemb * size\<close> does not fit \<open>size_t\<close> or when the system has no
  memory.\<close>

definition calloc :: "heap \<Rightarrow> size_t \<Rightarrow> size_t \<Rightarrow> obj \<Rightarrow> heap \<times> ptr option" where
  "calloc h nmemb sz v =
     (if unat nmemb * unat sz > unat SIZE_MAX then (h, None)
      else case grants h of
             [] \<Rightarrow> (h, None)
           | granted # rest \<Rightarrow>
               if granted
               then (h\<lparr>cells := cells h @ [Some v], grants := rest\<rparr>,
                     Some (length (cells h), 0))
               else (h\<lparr>grants := rest\<rparr>, None))"

text \<open>\<open>free(p)\<close>: nothing for the null pointer; otherwise \<open>p\<close> must be the start of a live
  allocation, which is released as a whole.\<close>

definition free :: "heap \<Rightarrow> ptr option \<Rightarrow> fault + heap" where
  "free h p =
     (case p of
        None \<Rightarrow> Inr h
      | Some (a, off) \<Rightarrow>
          if off = 0 \<and> cell h a \<noteq> None
          then Inr (h\<lparr>cells := (cells h)[a := None], frees := frees h @ [a]\<rparr>)
          else Inl Invalid_access)"

definition zero_pool :: MMDB_data_pool_s where
  "zero_pool = \<lparr>blocks = None, count = 0, index = 0, size_f = 0, used = 0\<rparr>"

definition zero_node :: MMDB_entry_data_list_s where
  "zero_node = \<lparr>head = False, next = None, entry_data = 0\<rparr>"

subsection \<open>Reading and writing through pointers\<close>

definition get_pool :: "heap \<Rightarrow> ptr option \<Rightarrow> fault + MMDB_data_pool_s" where
  "get_pool h p =
     (case p of
        None \<Rightarrow> Inl Invalid_access
      | Some (a, off) \<Rightarrow>
          (case cell h a of
             Some (Pool v) \<Rightarrow> if off = 0 then Inr v else Inl Invalid_access
           | _ \<Rightarrow> Inl Invalid_access))"

definition set_pool :: "heap \<Rightarrow> ptr option \<Rightarrow> MMDB_data_pool_s \<Rightarrow> fault + heap" where
  "set_pool h p v =
     (case get_pool h p of
        Inl e \<Rightarrow> Inl e
      | Inr _ \<Rightarrow> Inr (put h (fst (the p)) (Pool v)))"

text \<open>\<open>p[i]\<close> for a pointer \<open>p\<close> to block pointers.\<close>

definition get_slot :: "heap \<Rightarrow> ptr option \<Rightarrow> nat \<Rightarrow> fault + ptr option" where
  "get_slot h p i =
     (case p of
        None \<Rightarrow> Inl Invalid_access
      | Some (a, off) \<Rightarrow>
          (case cell h a of
             Some (Dir d) \<Rightarrow> if off + i < length d then Inr (d ! (off + i)) else Inl Invalid_access
           | _ \<Rightarrow> Inl Invalid_access))"

definition set_slot :: "heap \<Rightarrow> ptr option \<Rightarrow> nat \<Rightarrow> ptr option \<Rightarrow> fault + heap" where
  "set_slot h p i v =
     (case p of
        None \<Rightarrow> Inl Invalid_access
      | Some (a, off) \<Rightarrow>
          (case cell h a of
             Some (Dir d) \<Rightarrow>
               if off + i < length d then Inr (put h a (Dir (d[off + i := v])))
               else Inl Invalid_access
           | _ \<Rightarrow> Inl Invalid_access))"

definition get_node :: "heap \<Rightarrow> ptr option \<Rightarrow> fault + MMDB_entry_data_list_s" where
  "get_node h p =
     (case p of
        None \<Rightarrow> Inl Invalid_access
      | Some (a, off) \<Rightarrow>
          (case cell h a of
             Some (Block ns) \<Rightarrow> if off < length ns then Inr (ns ! off) else Inl Invalid_access
           | _ \<Rightarrow> Inl Invalid_access))"

definition set_node :: "heap \<Rightarrow> ptr option \<Rightarrow> MMDB_entry_data_list_s \<Rightarrow> fault + heap" where
  "set_node h p v =
     (case p of
        None \<Rightarrow> Inl Invalid_access
      | Some (a, off) \<Rightarrow>
          (case cell h a of
             Some (Block ns) \<Rightarrow>
               if off < length ns then Inr (put h a (Block (ns[off := v])))
               else Inl Invalid_access
           | _ \<Rightarrow> Inl Invalid_access))"

text \<open>\<open>p + n\<close> on element pointers; arithmetic on the null pointer is undefined.\<close>

definition ptr_add :: "ptr option \<Rightarrow> nat \<Rightarrow> fault + ptr option" where
  "ptr_add p n = (case p of None \<Rightarrow> Inl Invalid_access | Some (a, off) \<Rightarrow> Inr (Some (a, off + n)))"


text \<open>\<open>p - n\<close> on element pointers; a pointer before the start of its allocation is
  undefined.\<close>

definition ptr_sub :: "ptr option \<Rightarrow> nat \<Rightarrow> fault + ptr option" where
  "ptr_sub p n =
     (case p of
        None \<Rightarrow> Inl Invalid_access
      | Some (a, off) \<Rightarrow> if n \<le> off then Inr (Some (a, off - n)) else Inl Invalid_access)"

text \<open>An assignment to one field, \<open>pool->field = v\<close> or \<open>element->field = v\<close>: the struct
  is read, changed by \<open>f\<close> and written back.\<close>

definition upd_pool ::
  "heap \<Rightarrow> ptr option \<Rightarrow> (MMDB_data_pool_s \<Rightarrow> MMDB_data_pool_s) \<Rightarrow> fault + heap" where
  "upd_pool h p f = bind (get_pool h p) (\<lambda>v. set_pool h p (f v))"

definition upd_node ::
  "heap \<Rightarrow> ptr option \<Rightarrow> (MMDB_entry_data_list_s \<Rightarrow> MMDB_entry_data_list_s) \<Rightarrow> fault + heap" where
  "upd_node h p f = bind (get_node h p) (\<lambda>v. set_node h p (f v))"

text \<open>\<open>size_t\<close> has 64 bits, so a pointer has 8 bytes and \<open>MMDB_data_pool_s\<close> (a pointer
  and four \<open>size_t\<close>) has 40. \<open>sizeof(MMDB_entry_data_list_s)\<close> comes from maxminddb.h
  and is the parameter \<open>node_sz\<close> of the functions that use it.\<close>

definition sizeof_pool :: size_t where
  "sizeof_pool = 40"

definition sizeof_ptr :: size_t where
  "sizeof_ptr = 8"

section \<open>The program\<close>

subsection \<open>can_multiply\<close>

definition can_multiply :: "size_t \<Rightarrow> size_t \<Rightarrow> size_t \<Rightarrow> bool" where
  "can_multiply mx m n = (if m = 0 then False else n \<le> mx div m)"

subsection \<open>data_pool_destroy\<close>

text \<open>The loop \<open>for (i = 0; i <= pool->index; i++) free(pool->blocks[i])\<close>, entered with
  \<open>i\<close>. Every round reads the pool again, as the C does. The counter is a natural
  number: it stays below \<open>pool->index + 1\<close>, so it never reaches the point where a
  \<open>size_t\<close> would wrap.\<close>

function free_blocks :: "heap \<Rightarrow> ptr option \<Rightarrow> nat \<Rightarrow> fault + heap" where
  "free_blocks h pool i =
     (case get_pool h pool of
        Inl e \<Rightarrow> Inl e
      | Inr p \<Rightarrow>
          if i \<le> unat (index p)
          then (case get_slot h (blocks p) i of
                  Inl e \<Rightarrow> Inl e
                | Inr b \<Rightarrow>
                    (case free h b of
                       Inl e \<Rightarrow> Inl e
                     | Inr h' \<Rightarrow> free_blocks h' pool (i + 1)))
          else Inr h)"
  by pat_completeness auto
termination
proof (relation "measure (\<lambda>(h, pool, i).
         case get_pool h pool of Inl e \<Rightarrow> 0 | Inr p \<Rightarrow> Suc (unat (index p)) - i)")
  show "wf (measure (\<lambda>(h, pool, i).
         case get_pool h pool of Inl e \<Rightarrow> 0 | Inr p \<Rightarrow> Suc (unat (index p)) - i))"
    by simp
next
  fix h :: heap and pool :: "ptr option" and i :: nat and p b h'
  assume gp: "get_pool h pool = Inr p" and le: "i \<le> unat (index p)"
    and fr: "free h b = Inr h'"
  have same: "get_pool h' pool = Inr q \<Longrightarrow> q = p" for q
    using gp fr
    by (auto simp: get_pool_def free_def cell_def nth_list_update
          split: option.splits prod.splits if_splits obj.splits)
  show "((h', pool, i + 1), (h, pool, i)) \<in> measure (\<lambda>(h, pool, i).
         case get_pool h pool of Inl e \<Rightarrow> 0 | Inr p \<Rightarrow> Suc (unat (index p)) - i)"
    using gp le same by (auto split: sum.splits)
qed

declare free_blocks.simps [simp del]

definition data_pool_destroy :: "heap \<Rightarrow> ptr option \<Rightarrow> bool \<Rightarrow> fault + heap" where
  "data_pool_destroy h pool keep_list =
     (case pool of
        None \<Rightarrow> Inr h
      | Some _ \<Rightarrow>
          (case get_pool h pool of
             Inl e \<Rightarrow> Inl e
           | Inr p \<Rightarrow>
               (case (if blocks p \<noteq> None
                      then (case (if \<not> keep_list then free_blocks h pool 0 else Inr h) of
                              Inl e \<Rightarrow> Inl e
                            | Inr h1 \<Rightarrow>
                                (case get_pool h1 pool of
                                   Inl e \<Rightarrow> Inl e
                                 | Inr p1 \<Rightarrow> free h1 (blocks p1)))
                      else Inr h) of
                  Inl e \<Rightarrow> Inl e
                | Inr h2 \<Rightarrow> free h2 pool)))"

subsection \<open>data_pool_new\<close>

text \<open>The failure exit of \<open>data_pool_new\<close>:
  \<open>data_pool_destroy(pool, false); return NULL;\<close>\<close>

definition destroy_return_null :: "heap \<Rightarrow> ptr option \<Rightarrow> fault + heap \<times> ptr option" where
  "destroy_return_null h pool =
     bind (data_pool_destroy h pool False) (\<lambda>h'. Inr (h', None))"

definition data_pool_new :: "size_t \<Rightarrow> heap \<Rightarrow> size_t \<Rightarrow> fault + heap \<times> ptr option" where
  "data_pool_new node_sz h0 sz =
     (let (h1, pool) = calloc h0 1 sizeof_pool (Pool zero_pool) in
      if pool = None then Inr (h1, None)
      else
      bind (upd_pool h1 pool (\<lambda>p. p\<lparr>count := 32\<rparr>)) (\<lambda>h2.
      bind (get_pool h2 pool) (\<lambda>p2.
      if \<not> can_multiply SIZE_MAX (count p2) sizeof_ptr then destroy_return_null h2 pool
      else
      let (h3, d) = calloc h2 (count p2) sizeof_ptr (Dir (replicate (unat (count p2)) None)) in
      bind (upd_pool h3 pool (\<lambda>p. p\<lparr>blocks := d\<rparr>)) (\<lambda>h4.
      if d = None then destroy_return_null h4 pool
      else if sz = 0 \<or> \<not> can_multiply SIZE_MAX sz node_sz then destroy_return_null h4 pool
      else
      bind (upd_pool h4 pool (\<lambda>p. p\<lparr>size_f := sz\<rparr>)) (\<lambda>h5.
      bind (get_pool h5 pool) (\<lambda>p5.
      let (h6, b) = calloc h5 (size_f p5) node_sz
                      (Block (replicate (unat (size_f p5)) zero_node)) in
      bind (set_slot h6 (blocks p5) (unat (index p5)) b) (\<lambda>h7.
      if b = None then destroy_return_null h7 pool
      else
      bind (upd_node h7 b (\<lambda>n. n\<lparr>head := True\<rparr>)) (\<lambda>h8.
      Inr (h8, pool)))))))))"

subsection \<open>data_pool_alloc\<close>

definition data_pool_alloc :: "size_t \<Rightarrow> heap \<Rightarrow> ptr option \<Rightarrow> fault + heap \<times> ptr option" where
  "data_pool_alloc node_sz h pool =
     bind (get_pool h pool) (\<lambda>p.
     if used p < size_f p
     then
       bind (get_slot h (blocks p) (unat (index p))) (\<lambda>b.
       bind (ptr_add b (unat (used p))) (\<lambda>element.
       bind (if 0 < used p
             then bind (ptr_add b (unat (used p))) (\<lambda>q.
                  bind (ptr_sub q 1) (\<lambda>prev.
                  upd_node h prev (\<lambda>n. n\<lparr>next := element\<rparr>)))
             else Inr h) (\<lambda>h1.
       bind (upd_pool h1 pool (\<lambda>p. p\<lparr>used := used p + 1\<rparr>)) (\<lambda>h2.
       Inr (h2, element)))))
     else
       let new_index = index p + 1 in
       if new_index = count p then Inr (h, None)
       else if \<not> can_multiply SIZE_MAX (size_f p) 2 then Inr (h, None)
       else
       let new_size = size_f p * 2 in
       if \<not> can_multiply SIZE_MAX new_size node_sz then Inr (h, None)
       else
       let (h1, nb) = calloc h new_size node_sz (Block (replicate (unat new_size) zero_node)) in
       bind (set_slot h1 (blocks p) (unat new_index) nb) (\<lambda>h2.
       if nb = None then Inr (h2, None)
       else
       bind (upd_node h2 nb (\<lambda>n. n\<lparr>head := True\<rparr>)) (\<lambda>h3.
       bind (upd_pool h3 pool (\<lambda>p. p\<lparr>index := new_index\<rparr>)) (\<lambda>h4.
       bind (get_pool h4 pool) (\<lambda>p4.
       bind (get_slot h4 (blocks p4) (unat (index p4 - 1))) (\<lambda>pb.
       bind (ptr_add pb (unat (size_f p4))) (\<lambda>q.
       bind (ptr_sub q 1) (\<lambda>prev.
       bind (upd_pool h4 pool (\<lambda>p. p\<lparr>size_f := new_size\<rparr>)) (\<lambda>h5.
       bind (get_pool h5 pool) (\<lambda>p5.
       bind (get_slot h5 (blocks p5) (unat (index p5))) (\<lambda>element.
       bind (upd_node h5 prev (\<lambda>n. n\<lparr>next := element\<rparr>)) (\<lambda>h6.
       bind (upd_pool h6 pool (\<lambda>p. p\<lparr>used := 1\<rparr>)) (\<lambda>h7.
       Inr (h7, element))))))))))))))"

subsection \<open>data_pool_list_destroy and data_pool_get_list_head\<close>

text \<open>Both loops follow \<open>next\<close> links that the caller's memory holds, and a cycle of such
  links keeps them running. The first argument bounds the number of rounds of a loop;
  a loop that needs more ends with \<open>Out_of_fuel\<close>.\<close>

fun data_pool_get_list_head :: "nat \<Rightarrow> heap \<Rightarrow> ptr option \<Rightarrow> fault + ptr option" where
  "data_pool_get_list_head fuel h None = Inr None"
| "data_pool_get_list_head 0 h (Some p) = Inl Out_of_fuel"
| "data_pool_get_list_head (Suc fuel) h (Some p) =
     (case get_node h (Some p) of
        Inl e \<Rightarrow> Inl e
      | Inr n \<Rightarrow> if head n then Inr (Some p) else data_pool_get_list_head fuel h (next n))"

fun data_pool_list_destroy :: "nat \<Rightarrow> heap \<Rightarrow> ptr option \<Rightarrow> fault + heap \<times> bool" where
  "data_pool_list_destroy fuel h None = Inr (h, True)"
| "data_pool_list_destroy 0 h (Some p) = Inl Out_of_fuel"
| "data_pool_list_destroy (Suc fuel) h (Some p) =
     (case get_node h (Some p) of
        Inl e \<Rightarrow> Inl e
      | Inr n \<Rightarrow>
          if \<not> head n then Inr (h, False)
          else (case data_pool_get_list_head (Suc fuel) h (next n) of
                  Inl e \<Rightarrow> Inl e
                | Inr next_element \<Rightarrow>
                    (case free h (Some p) of
                       Inl e \<Rightarrow> Inl e
                     | Inr h' \<Rightarrow> data_pool_list_destroy fuel h' next_element)))"

section \<open>Pools and lists in use\<close>

text \<open>\<open>pool_after node_sz s pool n h\<close>: \<open>pool\<close> was returned by \<open>data_pool_new\<close> for the
  size \<open>s\<close>, since then \<open>n\<close> calls of \<open>data_pool_alloc\<close> on it have returned an element,
  and \<open>h\<close> is the store now. Between the calls the system's coming answers may change
  (a call of \<open>data_pool_alloc\<close> that returns null changes nothing else), and the
  caller may write the payload of any element, of this pool or another.\<close>

inductive pool_after :: "size_t \<Rightarrow> size_t \<Rightarrow> ptr option \<Rightarrow> nat \<Rightarrow> heap \<Rightarrow> bool"
  for node_sz :: size_t and s :: size_t and pool :: "ptr option" where
  created: "data_pool_new node_sz h0 s = Inr (h, pool) \<Longrightarrow> pool \<noteq> None \<Longrightarrow>
            pool_after node_sz s pool 0 h"
| alloc: "pool_after node_sz s pool n h \<Longrightarrow>
          data_pool_alloc node_sz h pool = Inr (h', Some e) \<Longrightarrow>
          pool_after node_sz s pool (Suc n) h'"
| system: "pool_after node_sz s pool n h \<Longrightarrow> pool_after node_sz s pool n (h\<lparr>grants := g\<rparr>)"
| payload: "pool_after node_sz s pool n h \<Longrightarrow>
            upd_node h q (\<lambda>e. e\<lparr>entry_data := v\<rparr>) = Inr h' \<Longrightarrow>
            pool_after node_sz s pool n h'"

text \<open>
  \<open>pool_inv s pool h\<close>: what holds of a pool of initial size \<open>s\<close> between
  calls. The pool struct and its array of 32 block pointers are live; the blocks
  \<open>0 .. index\<close> are allocated, block \<open>k\<close> with \<open>s * 2 ^ k\<close> elements, and the later
  slots are null; \<open>size\<close> is the size of the block in use and \<open>used\<close> stays within it.
  The products are taken in the natural numbers: nothing has wrapped.
\<close>

definition pool_inv :: "size_t \<Rightarrow> ptr option \<Rightarrow> heap \<Rightarrow> bool" where
  "pool_inv s pool h \<longleftrightarrow>
     (\<exists>a p d ds. pool = Some (a, 0) \<and> cell h a = Some (Pool p) \<and>
        blocks p = Some (d, 0) \<and> cell h d = Some (Dir ds) \<and> length ds = 32 \<and>
        count p = 32 \<and> unat (index p) < 32 \<and> 0 < s \<and>
        unat (size_f p) = unat s * 2 ^ unat (index p) \<and> used p \<le> size_f p \<and>
        (\<forall>k\<le>unat (index p). \<exists>b ns. ds ! k = Some (b, 0) \<and> cell h b = Some (Block ns) \<and>
           length ns = unat s * 2 ^ k) \<and>
        (\<forall>k. unat (index p) < k \<and> k < 32 \<longrightarrow> ds ! k = None))"

text \<open>
  \<open>undone h h'\<close>: from \<open>h\<close> to \<open>h'\<close> every allocation that was made has been freed
  again, once, and nothing else was freed or written: every address holds in \<open>h'\<close> what
  it held in \<open>h\<close>.
\<close>

definition undone :: "heap \<Rightarrow> heap \<Rightarrow> bool" where
  "undone h h' \<longleftrightarrow>
     cell h' = cell h \<and>
     (\<exists>fs. frees h' = frees h @ fs \<and> distinct fs \<and>
        set fs = {length (cells h) ..< length (cells h')})"

text \<open>
  A well-formed list. It runs through the blocks \<open>segs\<close>, a list of pairs of the address
  of a block and the number \<open>u\<close> of its elements that are on the list. In each block
  the elements \<open>0 .. u - 1\<close> are on the list in this order, linked by \<open>next\<close>; element
  \<open>0\<close> and no other is flagged \<open>head\<close>; the \<open>next\<close> of element \<open>u - 1\<close> leads to
  element \<open>0\<close> of the block that follows, or is null in the last block. No block occurs
  twice.
\<close>

definition node_ok :: "heap \<Rightarrow> addr \<Rightarrow> nat \<Rightarrow> nat \<Rightarrow> bool" where
  "node_ok h a u j =
     (case get_node h (Some (a, j)) of
        Inl e \<Rightarrow> False
      | Inr n \<Rightarrow> head n = (j = 0) \<and> (j + 1 < u \<longrightarrow> next n = Some (a, j + 1)))"

definition block_seg :: "heap \<Rightarrow> addr \<Rightarrow> nat \<Rightarrow> bool" where
  "block_seg h a u \<longleftrightarrow> 0 < u \<and> (\<forall>j<u. node_ok h a u j)"

definition seg_next :: "heap \<Rightarrow> addr \<Rightarrow> nat \<Rightarrow> ptr option" where
  "seg_next h a u = (case get_node h (Some (a, u - 1)) of Inl e \<Rightarrow> None | Inr n \<Rightarrow> next n)"

fun chain :: "heap \<Rightarrow> ptr option \<Rightarrow> (addr \<times> nat) list \<Rightarrow> bool" where
  "chain h p [] \<longleftrightarrow> p = None"
| "chain h p ((a, u) # segs) \<longleftrightarrow>
     p = Some (a, 0) \<and> a \<notin> fst ` set segs \<and> block_seg h a u \<and> chain h (seg_next h a u) segs"

text \<open>
  \<open>list_inv pool n h\<close>: the list a pool has built after \<open>n\<close> calls of
  \<open>data_pool_alloc\<close> that returned an element. From the first element of block 0 it
  is a well-formed list of \<open>n\<close> elements whose last block is the block in use, with
  \<open>used\<close> elements on the list; the elements of that block not handed out yet have
  \<open>head\<close> and \<open>next\<close> as \<open>calloc\<close> and \<open>data_pool_new\<close> left them.
\<close>

definition list_inv :: "ptr option \<Rightarrow> nat \<Rightarrow> heap \<Rightarrow> bool" where
  "list_inv pool n h \<longleftrightarrow>
     (\<exists>a p d ds b ns pre. pool = Some (a, 0) \<and> cell h a = Some (Pool p) \<and>
        blocks p = Some (d, 0) \<and> cell h d = Some (Dir ds) \<and>
        ds ! unat (index p) = Some (b, 0) \<and> cell h b = Some (Block ns) \<and>
        (\<forall>j<length ns. unat (used p) \<le> j \<longrightarrow>
           head (ns ! j) = (j = 0) \<and> next (ns ! j) = None) \<and>
        (if n = 0 then used p = 0
         else 0 < used p \<and> chain h (ds ! 0) (pre @ [(b, unat (used p))]) \<and>
              sum_list (map snd pre) + unat (used p) = n))"

section \<open>Example stores\<close>

text \<open>
  A run of the program on the empty store, with elements of 16 bytes:
  \<open>data_pool_new\<close> for the size 1 gives \<open>ex_h1\<close> (the pool at address 0, the array of
  block pointers at 1, block 0 at 2), and three calls of \<open>data_pool_alloc\<close> give
  \<open>ex_h2\<close>, \<open>ex_h3\<close> (where block 1, of two elements, is at address 3) and \<open>ex_h4\<close>.
\<close>

definition ex_h0 :: heap where
  "ex_h0 = \<lparr>cells = [], frees = [], grants = [True, True, True, True]\<rparr>"

definition ex_pool :: "size_t \<Rightarrow> size_t \<Rightarrow> size_t \<Rightarrow> obj option" where
  "ex_pool i sz u = Some (Pool \<lparr>blocks = Some (1, 0), count = 32, index = i, size_f = sz, used = u\<rparr>)"

definition ex_node :: "bool \<Rightarrow> ptr option \<Rightarrow> MMDB_entry_data_list_s" where
  "ex_node flag nx = \<lparr>head = flag, next = nx, entry_data = 0\<rparr>"

definition ex_h1 :: heap where
  "ex_h1 = \<lparr>cells = [ex_pool 0 1 0,
      Some (Dir ((replicate 32 None)[0 := Some (2, 0)])),
      Some (Block [ex_node True None])],
     frees = [], grants = [True]\<rparr>"

definition ex_h2 :: heap where
  "ex_h2 = \<lparr>cells = [ex_pool 0 1 1,
      Some (Dir ((replicate 32 None)[0 := Some (2, 0)])),
      Some (Block [ex_node True None])],
     frees = [], grants = [True]\<rparr>"

definition ex_h3 :: heap where
  "ex_h3 = \<lparr>cells = [ex_pool 1 2 1,
      Some (Dir ((replicate 32 None)[0 := Some (2, 0), 1 := Some (3, 0)])),
      Some (Block [ex_node True (Some (3, 0))]),
      Some (Block [ex_node True None, ex_node False None])],
     frees = [], grants = []\<rparr>"

definition ex_h4 :: heap where
  "ex_h4 = \<lparr>cells = [ex_pool 1 2 2,
      Some (Dir ((replicate 32 None)[0 := Some (2, 0), 1 := Some (3, 0)])),
      Some (Block [ex_node True (Some (3, 0))]),
      Some (Block [ex_node True (Some (3, 1)), ex_node False None])],
     frees = [], grants = []\<rparr>"

definition ex_segs :: "(addr \<times> nat) list" where
  "ex_segs = [(2, 1), (3, 2)]"

text \<open>
  \<open>ex_full\<close>: a pool whose last block, the 32nd, is used up. \<open>ex_undone\<close>: the empty
  store after a call of \<open>data_pool_new\<close> that failed past its second allocation.
  \<open>cx_list\<close>: a list of two blocks where the first element of the second block lacks
  its \<open>head\<close> flag, and \<open>cx_list_after\<close>: the same with the first block freed.
\<close>

definition ex_full_pool :: MMDB_data_pool_s where
  "ex_full_pool = \<lparr>blocks = Some (1, 0), count = 32, index = 31, size_f = 1, used = 1\<rparr>"

definition ex_full :: heap where
  "ex_full = \<lparr>cells = [Some (Pool ex_full_pool)], frees = [], grants = [True]\<rparr>"

definition ex_undone :: heap where
  "ex_undone = \<lparr>cells = [None, None], frees = [1, 0], grants = [True, True]\<rparr>"

definition cx_list :: heap where
  "cx_list = \<lparr>cells = [Some (Block [ex_node True (Some (1, 0))]),
      Some (Block [ex_node False (Some (1, 1)), ex_node False None])],
     frees = [], grants = []\<rparr>"

definition cx_list_after :: heap where
  "cx_list_after = \<lparr>cells = [None,
      Some (Block [ex_node False (Some (1, 1)), ex_node False None])],
     frees = [0], grants = []\<rparr>"

text \<open>
  Stores whose elements hold data. \<open>ex_refused_data\<close>: \<open>ex_h2\<close>, where block 0 is
  used up, after the caller has written the payload 7 to the element handed out, when
  the system has no memory. \<open>ex_h4_data\<close>: \<open>ex_h4\<close> after the
  caller has written the payloads 7 and 9 to the first and the third element of the list.
\<close>

definition ex_refused_data :: heap where
  "ex_refused_data = \<lparr>cells = [ex_pool 0 1 1,
      Some (Dir ((replicate 32 None)[0 := Some (2, 0)])),
      Some (Block [\<lparr>head = True, next = None, entry_data = 7\<rparr>])],
     frees = [], grants = []\<rparr>"

definition ex_h4_data :: heap where
  "ex_h4_data = \<lparr>cells = [ex_pool 1 2 2,
      Some (Dir ((replicate 32 None)[0 := Some (2, 0), 1 := Some (3, 0)])),
      Some (Block [\<lparr>head = True, next = Some (3, 0), entry_data = 7\<rparr>]),
      Some (Block [ex_node True (Some (3, 1)), \<lparr>head = False, next = None, entry_data = 9\<rparr>])],
     frees = [], grants = []\<rparr>"

section \<open>Properties\<close>

subsection \<open>The store, the pool and its invariant\<close>

lemma bind_Inr [simp]: "bind (Inr x) f = f x"
  by (simp add: bind_def)

lemma bind_Inl [simp]: "bind (Inl e) f = Inl e"
  by (simp add: bind_def)

lemma bind_eq_Inr: "bind m f = Inr y \<longleftrightarrow> (\<exists>x. m = Inr x \<and> f x = Inr y)"
  by (cases m) simp_all

lemma cell_grants [simp]: "cell (h\<lparr>grants := g\<rparr>) = cell h"
  by (simp add: cell_def fun_eq_iff)

lemma get_grants [simp]:
  "get_pool (h\<lparr>grants := g\<rparr>) = get_pool h"
  "get_node (h\<lparr>grants := g\<rparr>) = get_node h"
  "get_slot (h\<lparr>grants := g\<rparr>) = get_slot h"
  by (auto simp: get_pool_def get_node_def get_slot_def fun_eq_iff split: option.splits)

lemma cell_live: "cell h a = Some v \<Longrightarrow> a < length (cells h)"
  by (simp add: cell_def split: if_splits)

lemma cell_put:
  "cell (put h a v) b = (if b = a \<and> a < length (cells h) then Some v else cell h b)"
  by (simp add: cell_def put_def)

lemma frees_put [simp]: "frees (put h a v) = frees h"
  by (simp add: put_def)

lemma grants_put [simp]: "grants (put h a v) = grants h"
  by (simp add: put_def)

lemma length_cells_put [simp]: "length (cells (put h a v)) = length (cells h)"
  by (simp add: put_def)

lemma get_pool_Some: "get_pool h pool = Inr p \<longleftrightarrow> (\<exists>a. pool = Some (a, 0) \<and> cell h a = Some (Pool p))"
  by (auto simp: get_pool_def split: option.splits obj.splits)

lemma get_node_Some:
  "get_node h q = Inr n \<longleftrightarrow>
   (\<exists>a off ns. q = Some (a, off) \<and> cell h a = Some (Block ns) \<and> off < length ns \<and> n = ns ! off)"
  by (auto simp: get_node_def split: option.splits obj.splits)

lemma get_slot_Some:
  "get_slot h q i = Inr v \<longleftrightarrow>
   (\<exists>a off ds. q = Some (a, off) \<and> cell h a = Some (Dir ds) \<and> off + i < length ds \<and> v = ds ! (off + i))"
  by (auto simp: get_slot_def split: option.splits obj.splits)

lemma upd_pool_live:
  "cell h a = Some (Pool p) \<Longrightarrow> upd_pool h (Some (a, 0)) f = Inr (put h a (Pool (f p)))"
  by (simp add: upd_pool_def set_pool_def get_pool_def)

lemma upd_node_live:
  "cell h a = Some (Block ns) \<Longrightarrow> off < length ns \<Longrightarrow>
   upd_node h (Some (a, off)) f = Inr (put h a (Block (ns[off := f (ns ! off)])))"
  by (simp add: upd_node_def set_node_def get_node_def)

lemma set_slot_live:
  "cell h a = Some (Dir ds) \<Longrightarrow> i < length ds \<Longrightarrow>
   set_slot h (Some (a, 0)) i v = Inr (put h a (Dir (ds[i := v])))"
  by (simp add: set_slot_def)

lemma get_slot_live:
  "cell h a = Some (Dir ds) \<Longrightarrow> i < length ds \<Longrightarrow> get_slot h (Some (a, 0)) i = Inr (ds ! i)"
  by (simp add: get_slot_def)

lemma get_pool_live: "cell h a = Some (Pool p) \<Longrightarrow> get_pool h (Some (a, 0)) = Inr p"
  by (simp add: get_pool_def)

lemma alloc_take:
  assumes a: "cell h a = Some (Pool p)" and d: "blocks p = Some (d, 0)"
    and ds: "cell h d = Some (Dir ds)" and i: "unat (index p) < length ds"
    and b: "ds ! unat (index p) = Some (b, 0)" and ns: "cell h b = Some (Block ns)"
    and len: "unat (size_f p) \<le> length ns" and u: "used p < size_f p"
  shows "\<exists>h'. data_pool_alloc node_sz h (Some (a, 0)) = Inr (h', Some (b, unat (used p))) \<and>
           cell h' = (\<lambda>x.
             if x = a then Some (Pool (p\<lparr>used := used p + 1\<rparr>))
             else if x = b \<and> 0 < used p
               then Some (Block (ns[unat (used p) - 1 :=
                      (ns ! (unat (used p) - 1))\<lparr>next := Some (b, unat (used p))\<rparr>]))
             else cell h x) \<and>
           frees h' = frees h \<and> grants h' = grants h \<and> length (cells h') = length (cells h)"
proof -
  have ab: "a \<noteq> b" using a ns by auto
  have live: "a < length (cells h)" "b < length (cells h)"
    using a ns by (auto dest: cell_live)
  have ul: "unat (used p) < length ns" using u len by (simp add: word_less_nat_alt)
  show ?thesis
  proof (cases "0 < used p")
    case True
    then have "0 < unat (used p)" by (simp add: word_less_nat_alt)
    then show ?thesis
      using assms ab ul True live
      by (simp add: data_pool_alloc_def get_pool_live get_slot_live ptr_add_def ptr_sub_def
            upd_node_live upd_pool_live cell_put fun_eq_iff)
  next
    case False
    then show ?thesis
      using assms ab ul live
      by (simp add: data_pool_alloc_def get_pool_live get_slot_live ptr_add_def ptr_sub_def
            upd_node_live upd_pool_live cell_put fun_eq_iff)
  qed
qed

lemma can_multiply_unat:
  "can_multiply mx m n \<longleftrightarrow> m \<noteq> 0 \<and> unat m * unat n \<le> unat mx"
proof (cases "m = 0")
  case True
  then show ?thesis by (simp add: can_multiply_def)
next
  case False
  then have pos: "0 < unat m" by (simp add: unat_gt_0)
  have "n \<le> mx div m \<longleftrightarrow> unat n \<le> unat mx div unat m"
    by (simp add: word_le_nat_alt unat_div)
  also have "\<dots> \<longleftrightarrow> unat n * unat m \<le> unat mx"
    using pos by (simp add: less_eq_div_iff_mult_less_eq)
  finally show ?thesis using False by (simp add: can_multiply_def mult.commute)
qed

lemma unat_SIZE_MAX: "unat SIZE_MAX = 18446744073709551615"
  by (simp add: SIZE_MAX_def)

lemma can_double:
  assumes "can_multiply SIZE_MAX m 2"
  shows "unat (m * 2) = 2 * unat m" and "0 < unat m"
proof -
  from assms have m: "m \<noteq> 0" and le: "unat m * 2 \<le> 18446744073709551615"
    by (simp_all add: can_multiply_unat unat_SIZE_MAX)
  show "0 < unat m" using m by (simp add: unat_gt_0)
  have "unat (m * 2) = (unat m * 2) mod 2 ^ 64"
    by (simp add: unat_word_ariths)
  also have "\<dots> = unat m * 2" using le by simp
  finally show "unat (m * 2) = 2 * unat m" by simp
qed

lemma calloc_granted:
  "grants h = True # g \<Longrightarrow> unat n * unat sz \<le> unat SIZE_MAX \<Longrightarrow>
   calloc h n sz v = (h\<lparr>cells := cells h @ [Some v], grants := g\<rparr>, Some (length (cells h), 0))"
  by (simp add: calloc_def)

lemma cell_new:
  "cell (h\<lparr>cells := cells h @ [Some v]\<rparr>) x =
     (if x = length (cells h) then Some v else cell h x)"
  by (simp add: cell_def nth_append)

lemma alloc_grow:
  assumes a: "cell h a = Some (Pool p)" and d: "blocks p = Some (d, 0)"
    and ds: "cell h d = Some (Dir ds)" and lds: "length ds = 32"
    and i: "unat (index p) < 31"
    and b: "ds ! unat (index p) = Some (b, 0)" and ns: "cell h b = Some (Block ns)"
    and len: "unat (size_f p) \<le> length ns" and full: "\<not> used p < size_f p"
    and cnt: "count p = 32"
    and cm1: "can_multiply SIZE_MAX (size_f p) 2"
    and cm2: "can_multiply SIZE_MAX (size_f p * 2) node_sz"
    and g: "grants h = True # g"
  shows "\<exists>h'. data_pool_alloc node_sz h (Some (a, 0)) = Inr (h', Some (length (cells h), 0)) \<and>
           cell h' = (\<lambda>x.
             if x = a then Some (Pool (p\<lparr>index := index p + 1, size_f := size_f p * 2, used := 1\<rparr>))
             else if x = d then Some (Dir (ds[unat (index p) + 1 := Some (length (cells h), 0)]))
             else if x = b then Some (Block (ns[unat (size_f p) - 1 :=
                    (ns ! (unat (size_f p) - 1))\<lparr>next := Some (length (cells h), 0)\<rparr>]))
             else if x = length (cells h)
               then Some (Block ((replicate (2 * unat (size_f p)) zero_node)
                      [0 := zero_node\<lparr>head := True\<rparr>]))
             else cell h x) \<and>
           frees h' = frees h \<and> grants h' = g \<and> length (cells h') = Suc (length (cells h))"
proof -
  let ?n = "length (cells h)"
  have neq: "a \<noteq> b" "a \<noteq> d" "d \<noteq> b" using a ds ns by auto
  have live: "a < ?n" "b < ?n" "d < ?n" using a ds ns by (auto dest: cell_live)
  have dbl: "unat (size_f p * 2) = 2 * unat (size_f p)" and pos: "0 < unat (size_f p)"
    using can_double [OF cm1] by simp_all
  have ni: "index p + 1 \<noteq> count p"
  proof
    assume "index p + 1 = count p"
    then have "unat (index p + 1) = 32" using cnt by simp
    moreover have "unat (index p + 1) = unat (index p) + 1"
      using i by (simp add: unat_word_ariths)
    ultimately show False using i by simp
  qed
  have ui: "unat (index p + 1) = unat (index p) + 1"
    using i by (simp add: unat_word_ariths)
  have fit: "unat (size_f p * 2) * unat node_sz \<le> unat SIZE_MAX"
    using cm2 by (simp add: can_multiply_unat)
  show ?thesis
    using assms neq live dbl pos ni ui fit
    by (simp add: data_pool_alloc_def get_pool_live get_slot_live set_slot_live ptr_add_def
          ptr_sub_def upd_node_live upd_pool_live cell_put cell_new calloc_granted Let_def
          fun_eq_iff)
qed


lemma free_live:
  "cell h a = Some v \<Longrightarrow>
   free h (Some (a, 0)) = Inr (h\<lparr>cells := (cells h)[a := None], frees := frees h @ [a]\<rparr>)"
  by (simp add: free_def)

lemma cell_freed:
  "cell (h\<lparr>cells := (cells h)[a := None], frees := fs\<rparr>) x = (if x = a then None else cell h x)"
  by (simp add: cell_def)

lemma free_blocks_null:
  assumes "cell h a = Some (Pool p)" "index p = 0" "blocks p = Some (d, 0)"
    "cell h d = Some (Dir ds)" "0 < length ds" "ds ! 0 = None"
  shows "free_blocks h (Some (a, 0)) 0 = Inr h"
proof -
  have "free_blocks h (Some (a, 0)) 0 = free_blocks h (Some (a, 0)) 1"
    using assms
    by (subst free_blocks.simps) (simp add: get_pool_live get_slot_live free_def)
  also have "\<dots> = Inr h"
    using assms by (subst free_blocks.simps) (simp add: get_pool_live)
  finally show ?thesis .
qed

lemma sizes_fit:
  "unat (1 :: size_t) * unat sizeof_pool \<le> unat SIZE_MAX"
  "can_multiply SIZE_MAX 32 sizeof_ptr"
  "unat (32 :: size_t) * unat sizeof_ptr \<le> unat SIZE_MAX"
  by (simp_all add: sizeof_pool_def sizeof_ptr_def unat_SIZE_MAX can_multiply_unat)

lemma data_pool_new_ok:
  assumes g: "grants h = True # True # True # g" and sz: "sz \<noteq> 0"
    and cm: "can_multiply SIZE_MAX sz node_sz"
  shows "\<exists>h'. data_pool_new node_sz h sz = Inr (h', Some (length (cells h), 0)) \<and>
           cell h' = (\<lambda>x.
             if x = length (cells h)
               then Some (Pool \<lparr>blocks = Some (length (cells h) + 1, 0), count = 32, index = 0,
                            size_f = sz, used = 0\<rparr>)
             else if x = length (cells h) + 1
               then Some (Dir ((replicate 32 None)[0 := Some (length (cells h) + 2, 0)]))
             else if x = length (cells h) + 2
               then Some (Block ((replicate (unat sz) zero_node)[0 := zero_node\<lparr>head := True\<rparr>]))
             else cell h x) \<and>
           frees h' = frees h \<and> grants h' = g \<and> length (cells h') = length (cells h) + 3"
proof -
  have fit: "unat sz * unat node_sz \<le> unat SIZE_MAX" and pos: "0 < unat sz"
    using cm sz by (simp_all add: can_multiply_unat unat_gt_0)
  show ?thesis
    using assms fit pos
    by (simp add: data_pool_new_def calloc_granted sizeof_pool_def sizeof_ptr_def unat_SIZE_MAX
          can_multiply_unat upd_pool_live get_pool_live
          cell_new cell_put zero_pool_def set_slot_live upd_node_live fun_eq_iff)
qed



lemma calloc_refused:
  "\<not> (\<exists>g. grants h = True # g) \<Longrightarrow> \<exists>g'. calloc h n sz v = (h\<lparr>grants := g'\<rparr>, None)"
proof (cases "grants h")
  case Nil
  then have "calloc h n sz v = (h\<lparr>grants := grants h\<rparr>, None)" by (simp add: calloc_def)
  then show ?thesis by blast
next
  case (Cons x g)
  assume "\<not> (\<exists>g. grants h = True # g)"
  with Cons have "\<not> x" by simp
  with Cons have "calloc h n sz v = (h\<lparr>grants := grants h\<rparr>, None) \<or>
    calloc h n sz v = (h\<lparr>grants := g\<rparr>, None)" by (simp add: calloc_def)
  then show ?thesis by blast
qed

lemma zero_pool_simps [simp]:
  "blocks zero_pool = None" "count zero_pool = 0" "index zero_pool = 0"
  "size_f zero_pool = 0" "used zero_pool = 0"
  by (simp_all add: zero_pool_def)

lemma undoneI:
  "cells h' = cells h @ replicate (length fs) None \<Longrightarrow> frees h' = frees h @ fs \<Longrightarrow>
   distinct fs \<Longrightarrow> set fs = {length (cells h) ..< length (cells h) + length fs} \<Longrightarrow>
   undone h h'"
  by (auto simp: undone_def cell_def fun_eq_iff nth_append)

lemma data_pool_new_refused0:
  assumes "\<not> (\<exists>g. grants h = True # g)"
  shows "\<exists>h'. data_pool_new node_sz h sz = Inr (h', None) \<and> undone h h'"
proof -
  obtain g' where "calloc h 1 sizeof_pool (Pool zero_pool) = (h\<lparr>grants := g'\<rparr>, None)"
    using calloc_refused [OF assms] by blast
  then have "data_pool_new node_sz h sz = Inr (h\<lparr>grants := g'\<rparr>, None)"
    by (simp add: data_pool_new_def)
  moreover have "undone h (h\<lparr>grants := g'\<rparr>)"
    by (rule undoneI [where fs = "[]"]) simp_all
  ultimately show ?thesis by blast
qed

lemma data_pool_new_refused1:
  assumes g: "grants h = True # g1" and no: "\<not> (\<exists>g. g1 = True # g)"
  shows "\<exists>h'. data_pool_new node_sz h sz = Inr (h', None) \<and> undone h h'"
proof -
  let ?n = "length (cells h)"
  define h1 where "h1 = h\<lparr>cells := cells h @ [Some (Pool zero_pool)], grants := g1\<rparr>"
  define h2 where "h2 = put h1 ?n (Pool (zero_pool\<lparr>count := 32\<rparr>))"
  have c1: "calloc h 1 sizeof_pool (Pool zero_pool) = (h1, Some (?n, 0))"
    using g by (simp add: calloc_def sizeof_pool_def unat_SIZE_MAX h1_def)
  have u1: "upd_pool h1 (Some (?n, 0)) (\<lambda>p. p\<lparr>count := 32\<rparr>) = Inr h2"
    by (simp add: h2_def h1_def upd_pool_live cell_new)
  have p2: "cell h2 ?n = Some (Pool (zero_pool\<lparr>count := 32\<rparr>))"
    by (simp add: h2_def h1_def cell_put)
  have "\<not> (\<exists>g. grants h2 = True # g)" using no by (simp add: h2_def h1_def)
  from calloc_refused [OF this] obtain g' where
    c2: "calloc h2 32 sizeof_ptr (Dir (replicate (unat (32 :: size_t)) None)) =
           (h2\<lparr>grants := g'\<rparr>, None)"
    by blast
  define h4 where "h4 = put (h2\<lparr>grants := g'\<rparr>) ?n (Pool (zero_pool\<lparr>count := 32, blocks := None\<rparr>))"
  have u3: "upd_pool (h2\<lparr>grants := g'\<rparr>) (Some (?n, 0)) (\<lambda>p. p\<lparr>blocks := None\<rparr>) = Inr h4"
    using p2 by (simp add: h4_def upd_pool_live)
  have p4: "cell h4 ?n = Some (Pool (zero_pool\<lparr>count := 32, blocks := None\<rparr>))"
    by (simp add: h4_def h2_def h1_def cell_put)
  define h' where "h' = h4\<lparr>cells := (cells h4)[?n := None], frees := frees h4 @ [?n]\<rparr>"
  have d: "destroy_return_null h4 (Some (?n, 0)) = Inr (h', None)"
    using p4 by (simp add: destroy_return_null_def data_pool_destroy_def get_pool_live
        free_live h'_def)
  have "data_pool_new node_sz h sz = Inr (h', None)"
    using c2 by (simp add: data_pool_new_def c1 u1 get_pool_live p2 can_multiply_unat
        sizeof_ptr_def unat_SIZE_MAX u3 d)
  moreover have "undone h h'"
    by (rule undoneI [where fs = "[?n]"])
      (simp_all add: h'_def h4_def h2_def h1_def put_def)
  ultimately show ?thesis by blast
qed


lemma destroy_fresh:
  assumes a: "cell h a = Some (Pool p)" and i: "index p = 0" and d: "blocks p = Some (d, 0)"
    and ds: "cell h d = Some (Dir ds)" and l: "0 < length ds" and z: "ds ! 0 = None"
  shows "data_pool_destroy h (Some (a, 0)) False =
           Inr (h\<lparr>cells := (cells h)[d := None, a := None], frees := frees h @ [d, a]\<rparr>)"
proof -
  have ad: "a \<noteq> d" using a ds by auto
  have fb: "free_blocks h (Some (a, 0)) 0 = Inr h"
    using assms by (rule free_blocks_null)
  have f1: "free h (Some (d, 0)) = Inr (h\<lparr>cells := (cells h)[d := None], frees := frees h @ [d]\<rparr>)"
    using ds by (rule free_live)
  have "cell (h\<lparr>cells := (cells h)[d := None], frees := frees h @ [d]\<rparr>) a = Some (Pool p)"
    using a ad by (simp add: cell_freed)
  from free_live [OF this]
  show ?thesis
    using a d by (simp add: data_pool_destroy_def get_pool_live fb f1)
qed

lemma data_pool_new_refused2:
  assumes g: "grants h = True # True # g2"
    and no: "sz = 0 \<or> \<not> can_multiply SIZE_MAX sz node_sz \<or> \<not> (\<exists>g. g2 = True # g)"
  shows "\<exists>h'. data_pool_new node_sz h sz = Inr (h', None) \<and> undone h h'"
proof -
  let ?n = "length (cells h)"
  let ?p2 = "zero_pool\<lparr>count := 32\<rparr>"
  let ?p4 = "zero_pool\<lparr>count := 32, blocks := Some (Suc ?n, 0)\<rparr>"
  let ?dir = "Dir (replicate 32 None)"
  define h1 where "h1 = h\<lparr>cells := cells h @ [Some (Pool zero_pool)], grants := True # g2\<rparr>"
  define h2 where "h2 = put h1 ?n (Pool ?p2)"
  define h3 where "h3 = h2\<lparr>cells := cells h2 @ [Some ?dir], grants := g2\<rparr>"
  define h4 where "h4 = put h3 ?n (Pool ?p4)"
  have c1: "calloc h 1 sizeof_pool (Pool zero_pool) = (h1, Some (?n, 0))"
    using g by (simp add: calloc_def sizeof_pool_def unat_SIZE_MAX h1_def)
  have u1: "upd_pool h1 (Some (?n, 0)) (\<lambda>p. p\<lparr>count := 32\<rparr>) = Inr h2"
    by (simp add: h2_def h1_def upd_pool_live cell_new)
  have p2: "cell h2 ?n = Some (Pool ?p2)"
    by (simp add: h2_def h1_def cell_put)
  have l2: "length (cells h2) = Suc ?n" by (simp add: h2_def h1_def)
  have c2: "calloc h2 32 sizeof_ptr ?dir = (h3, Some (Suc ?n, 0))"
    by (simp add: calloc_def sizeof_ptr_def unat_SIZE_MAX h3_def h2_def h1_def)
  have p3: "cell h3 ?n = Some (Pool ?p2)"
    using p2 l2 by (simp add: h3_def cell_new)
  have u3: "upd_pool h3 (Some (?n, 0)) (\<lambda>p. p\<lparr>blocks := Some (Suc ?n, 0)\<rparr>) = Inr h4"
    using p3 by (simp add: h4_def upd_pool_live)
  have p4: "cell h4 ?n = Some (Pool ?p4)"
    using p3 by (simp add: h4_def cell_put cell_live)
  have d4: "cell h4 (Suc ?n) = Some ?dir"
    using l2 by (simp add: h4_def cell_put h3_def cell_new)
  have l4: "length (cells h4) = Suc (Suc ?n)" using l2 by (simp add: h4_def h3_def)
  have f4: "frees h4 = frees h" by (simp add: h4_def h3_def h2_def h1_def)
  have c4: "cells h4 = cells h @ [Some (Pool ?p4), Some ?dir]"
    by (simp add: h4_def h3_def h2_def h1_def put_def list_update_append)
  have start: "data_pool_new node_sz h sz =
      (if sz = 0 \<or> \<not> can_multiply SIZE_MAX sz node_sz then destroy_return_null h4 (Some (?n, 0))
       else bind (upd_pool h4 (Some (?n, 0)) (\<lambda>p. p\<lparr>size_f := sz\<rparr>)) (\<lambda>h5.
            bind (get_pool h5 (Some (?n, 0))) (\<lambda>p5.
            let (h6, b) = calloc h5 (size_f p5) node_sz
                            (Block (replicate (unat (size_f p5)) zero_node)) in
            bind (set_slot h6 (blocks p5) (unat (index p5)) b) (\<lambda>h7.
            if b = None then destroy_return_null h7 (Some (?n, 0))
            else bind (upd_node h7 b (\<lambda>n. n\<lparr>head := True\<rparr>)) (\<lambda>h8.
                 Inr (h8, Some (?n, 0)))))))"
    by (simp add: data_pool_new_def c1 u1 get_pool_live p2 sizes_fit c2 u3)
  show ?thesis
  proof (cases "sz = 0 \<or> \<not> can_multiply SIZE_MAX sz node_sz")
    case True
    define h' where "h' = h4\<lparr>cells := (cells h4)[Suc ?n := None, ?n := None],
      frees := frees h4 @ [Suc ?n, ?n]\<rparr>"
    have "data_pool_destroy h4 (Some (?n, 0)) False = Inr h'"
      unfolding h'_def using p4 _ _ d4 by (rule destroy_fresh) simp_all
    then have "data_pool_new node_sz h sz = Inr (h', None)"
      using True by (simp add: start destroy_return_null_def)
    moreover have "undone h h'"
      by (rule undoneI [where fs = "[Suc ?n, ?n]"])
        (auto simp: h'_def c4 f4 list_update_append)
    ultimately show ?thesis by blast
  next
    case False
    with no have no3: "\<not> (\<exists>g. g2 = True # g)" by blast
    let ?p5 = "?p4\<lparr>size_f := sz\<rparr>"
    define h5 where "h5 = put h4 ?n (Pool ?p5)"
    have u5: "upd_pool h4 (Some (?n, 0)) (\<lambda>p. p\<lparr>size_f := sz\<rparr>) = Inr h5"
      using p4 by (simp add: h5_def upd_pool_live)
    have p5: "cell h5 ?n = Some (Pool ?p5)"
      using p4 by (simp add: h5_def cell_put cell_live)
    have "\<not> (\<exists>g. grants h5 = True # g)"
      using no3 by (simp add: h5_def h4_def h3_def)
    from calloc_refused [OF this] obtain g' where
      c5: "calloc h5 sz node_sz (Block (replicate (unat sz) zero_node)) = (h5\<lparr>grants := g'\<rparr>, None)"
      by blast
    define h7 where "h7 = put (h5\<lparr>grants := g'\<rparr>) (Suc ?n)
      (Dir ((replicate 32 None)[0 := None]))"
    have d5: "cell (h5\<lparr>grants := g'\<rparr>) (Suc ?n) = Some ?dir"
      using d4 by (simp add: h5_def cell_put)
    have s7: "set_slot (h5\<lparr>grants := g'\<rparr>) (Some (Suc ?n, 0)) 0 None = Inr h7"
      unfolding h7_def using d5 by (rule set_slot_live) simp
    have p7: "cell h7 ?n = Some (Pool ?p5)"
      using p5 by (simp add: h7_def cell_put)
    have d7: "cell h7 (Suc ?n) = Some (Dir ((replicate 32 None)[0 := None]))"
      using d5 by (simp add: h7_def cell_put cell_live)
    have c7: "cells h7 = cells h @ [Some (Pool ?p5), Some (Dir ((replicate 32 None)[0 := None]))]"
      by (simp add: h7_def h5_def c4 put_def list_update_append)
    have f7: "frees h7 = frees h" by (simp add: h7_def h5_def f4)
    define h' where "h' = h7\<lparr>cells := (cells h7)[Suc ?n := None, ?n := None],
      frees := frees h7 @ [Suc ?n, ?n]\<rparr>"
    have "data_pool_destroy h7 (Some (?n, 0)) False = Inr h'"
      unfolding h'_def using p7 _ _ d7 by (rule destroy_fresh) simp_all
    then have "data_pool_new node_sz h sz = Inr (h', None)"
      using False by (simp add: start u5 get_pool_live p5 c5 s7 destroy_return_null_def)
    moreover have "undone h h'"
      by (rule undoneI [where fs = "[Suc ?n, ?n]"])
        (auto simp: h'_def c7 f7 list_update_append)
    ultimately show ?thesis by blast
  qed
qed


lemma data_pool_new_cases:
  "(\<exists>g. grants h = True # True # True # g) \<and> sz \<noteq> 0 \<and> can_multiply SIZE_MAX sz node_sz \<or>
   (\<exists>h'. data_pool_new node_sz h sz = Inr (h', None) \<and> undone h h')"
proof (cases "\<exists>g. grants h = True # g")
  case False
  then show ?thesis using data_pool_new_refused0 by blast
next
  case True
  then obtain g1 where g1: "grants h = True # g1" by blast
  show ?thesis
  proof (cases "\<exists>g. g1 = True # g")
    case False
    with g1 show ?thesis using data_pool_new_refused1 by blast
  next
    case True
    then obtain g2 where g2: "grants h = True # True # g2" using g1 by blast
    show ?thesis
    proof (cases "sz = 0 \<or> \<not> can_multiply SIZE_MAX sz node_sz \<or> \<not> (\<exists>g. g2 = True # g)")
      case True
      with g2 show ?thesis using data_pool_new_refused2 by blast
    next
      case False
      with g2 show ?thesis by auto
    qed
  qed
qed

lemma alloc_refused:
  assumes a: "cell h a = Some (Pool p)" and d: "blocks p = Some (d, 0)"
    and ds: "cell h d = Some (Dir ds)" and lds: "length ds = 32"
    and i: "unat (index p) < 32" and cnt: "count p = 32"
    and z: "\<forall>k<32. unat (index p) < k \<longrightarrow> ds ! k = None"
    and full: "\<not> used p < size_f p"
    and no: "index p + 1 = count p \<or> \<not> can_multiply SIZE_MAX (size_f p) 2 \<or>
             \<not> can_multiply SIZE_MAX (size_f p * 2) node_sz \<or> \<not> (\<exists>g. grants h = True # g)"
  shows "\<exists>g'. data_pool_alloc node_sz h (Some (a, 0)) = Inr (h\<lparr>grants := g'\<rparr>, None)"
proof (cases "index p + 1 = count p \<or> \<not> can_multiply SIZE_MAX (size_f p) 2 \<or>
             \<not> can_multiply SIZE_MAX (size_f p * 2) node_sz")
  case True
  then have "data_pool_alloc node_sz h (Some (a, 0)) = Inr (h\<lparr>grants := grants h\<rparr>, None)"
    using a full by (auto simp: data_pool_alloc_def get_pool_live Let_def)
  then show ?thesis by blast
next
  case False
  with no have "\<not> (\<exists>g. grants h = True # g)" by blast
  from calloc_refused [OF this] obtain g' where
    c: "calloc h (size_f p * 2) node_sz (Block (replicate (unat (size_f p * 2)) zero_node)) =
          (h\<lparr>grants := g'\<rparr>, None)"
    by blast
  have i31: "unat (index p) < 31"
  proof (rule ccontr)
    assume "\<not> unat (index p) < 31"
    with i have "unat (index p) = 31" by simp
    then have "index p = 31" by (simp add: word_unat_eq_iff)
    with False cnt show False by simp
  qed
  then have ui: "unat (index p + 1) = unat (index p) + 1"
    by (simp add: unat_word_ariths)
  have "ds ! (unat (index p) + 1) = None" using z i31 by simp
  then have same: "ds[unat (index p) + 1 := None] = ds"
    by (metis list_update_id)
  have "put (h\<lparr>grants := g'\<rparr>) d (Dir ds) = h\<lparr>grants := g'\<rparr>"
    using ds by (simp add: put_def cell_def list_update_same_conv split: if_splits)
  then have "data_pool_alloc node_sz h (Some (a, 0)) = Inr (h\<lparr>grants := g'\<rparr>, None)"
    using a d ds lds i31 full False c ui same
    by (simp add: data_pool_alloc_def get_pool_live Let_def set_slot_live)
  then show ?thesis by blast
qed


lemma pool_invI:
  assumes "cell h a = Some (Pool p)" "blocks p = Some (d, 0)" "cell h d = Some (Dir ds)"
    "length ds = 32" "count p = 32" "unat (index p) < 32" "0 < s"
    "unat (size_f p) = unat s * 2 ^ unat (index p)" "used p \<le> size_f p"
    "\<And>k. k \<le> unat (index p) \<Longrightarrow>
       \<exists>b ns. ds ! k = Some (b, 0) \<and> cell h b = Some (Block ns) \<and> length ns = unat s * 2 ^ k"
    "\<And>k. unat (index p) < k \<Longrightarrow> k < 32 \<Longrightarrow> ds ! k = None"
  shows "pool_inv s (Some (a, 0)) h"
  unfolding pool_inv_def
  apply (rule exI [of _ a], rule exI [of _ p], rule exI [of _ d], rule exI [of _ ds])
  using assms by simp

lemma pool_inv_take:
  assumes inv: "pool_inv s pool h"
    and gp: "get_pool h pool = Inr p" and u: "used p < size_f p"
  shows "\<exists>h' b. data_pool_alloc node_sz h pool = Inr (h', Some (b, unat (used p))) \<and>
           get_slot h (blocks p) (unat (index p)) = Inr (Some (b, 0)) \<and>
           get_pool h' pool = Inr (p\<lparr>used := used p + 1\<rparr>) \<and>
           frees h' = frees h \<and> grants h' = grants h \<and>
           length (cells h') = length (cells h) \<and> pool_inv s pool h'"
proof -
  from inv obtain a p0 d ds where
    pool: "pool = Some (a, 0)" and a: "cell h a = Some (Pool p0)" and
    d: "blocks p0 = Some (d, 0)" and ds: "cell h d = Some (Dir ds)" and
    lds: "length ds = 32" and cnt: "count p0 = 32" and i: "unat (index p0) < 32" and
    s: "0 < s" and sz: "unat (size_f p0) = unat s * 2 ^ unat (index p0)" and
    us: "used p0 \<le> size_f p0" and
    sl: "\<forall>k\<le>unat (index p0).
       \<exists>b ns. ds ! k = Some (b, 0) \<and> cell h b = Some (Block ns) \<and> length ns = unat s * 2 ^ k" and
    z: "\<forall>k. unat (index p0) < k \<and> k < 32 \<longrightarrow> ds ! k = None"
    unfolding pool_inv_def by blast
  have pp: "p0 = p" using gp a pool by (simp add: get_pool_live)
  note a = a [unfolded pp] and d = d [unfolded pp] and cnt = cnt [unfolded pp]
    and i = i [unfolded pp] and sz = sz [unfolded pp] and sl = sl [unfolded pp]
    and z = z [unfolded pp]
  from sl obtain b ns where
    b: "ds ! unat (index p) = Some (b, 0)" and ns: "cell h b = Some (Block ns)" and
    len: "length ns = unat s * 2 ^ unat (index p)"
    by auto
  have len': "unat (size_f p) \<le> length ns" using len sz by simp
  have i': "unat (index p) < length ds" using i lds by simp
  from alloc_take [OF a d ds i' b ns len' u, of node_sz] obtain h' where
    res: "data_pool_alloc node_sz h (Some (a, 0)) = Inr (h', Some (b, unat (used p)))" and
    c: "cell h' = (\<lambda>x.
             if x = a then Some (Pool (p\<lparr>used := used p + 1\<rparr>))
             else if x = b \<and> 0 < used p
               then Some (Block (ns[unat (used p) - 1 :=
                      (ns ! (unat (used p) - 1))\<lparr>next := Some (b, unat (used p))\<rparr>]))
             else cell h x)" and
    rest: "frees h' = frees h" "grants h' = grants h" "length (cells h') = length (cells h)"
    by blast
  have ad: "a \<noteq> d" "d \<noteq> b" using a ds ns by auto
  have inv': "pool_inv s (Some (a, 0)) h'"
  proof (rule pool_invI [where p = "p\<lparr>used := used p + 1\<rparr>" and d = d and ds = ds])
    show "cell h' a = Some (Pool (p\<lparr>used := used p + 1\<rparr>))" by (simp add: c)
    show "cell h' d = Some (Dir ds)" using ad ds by (simp add: c)
    show "used (p\<lparr>used := used p + 1\<rparr>) \<le> size_f (p\<lparr>used := used p + 1\<rparr>)"
      using u by (simp add: inc_le)
    show "\<exists>b ns. ds ! k = Some (b, 0) \<and> cell h' b = Some (Block ns) \<and> length ns = unat s * 2 ^ k"
      if "k \<le> unat (index (p\<lparr>used := used p + 1\<rparr>))" for k
    proof -
      from that sl obtain bk nk where
        k: "ds ! k = Some (bk, 0)" "cell h bk = Some (Block nk)" "length nk = unat s * 2 ^ k"
        by auto
      have "bk \<noteq> a" using k a by auto
      then show ?thesis using k ns by (auto simp: c)
    qed
  qed (use d lds cnt i s sz z in simp_all)
  have "get_slot h (blocks p) (unat (index p)) = Inr (Some (b, 0))"
    using d ds i' b by (simp add: get_slot_live)
  moreover have "get_pool h' pool = Inr (p\<lparr>used := used p + 1\<rparr>)"
    by (simp add: pool get_pool_live c)
  ultimately show ?thesis using res rest inv' pool by blast
qed


lemma pool_inv_refused:
  assumes inv: "pool_inv s pool h"
    and gp: "get_pool h pool = Inr p" and full: "\<not> used p < size_f p"
    and no: "index p + 1 = count p \<or> \<not> can_multiply SIZE_MAX (size_f p) 2 \<or>
             \<not> can_multiply SIZE_MAX (size_f p * 2) node_sz \<or> \<not> (\<exists>g. grants h = True # g)"
  shows "\<exists>g'. data_pool_alloc node_sz h pool = Inr (h\<lparr>grants := g'\<rparr>, None)"
proof -
  from inv obtain a p0 d ds where
    pool: "pool = Some (a, 0)" and a: "cell h a = Some (Pool p0)" and
    d: "blocks p0 = Some (d, 0)" and ds: "cell h d = Some (Dir ds)" and
    lds: "length ds = 32" and cnt: "count p0 = 32" and i: "unat (index p0) < 32" and
    z: "\<forall>k. unat (index p0) < k \<and> k < 32 \<longrightarrow> ds ! k = None"
    unfolding pool_inv_def by blast
  have pp: "p0 = p" using gp a pool by (simp add: get_pool_live)
  have z': "\<forall>k<32. unat (index p) < k \<longrightarrow> ds ! k = None" using z pp by simp
  show ?thesis
    unfolding pool
    using a [unfolded pp] d [unfolded pp] ds lds i [unfolded pp] cnt [unfolded pp] z' full no
    by (rule alloc_refused)
qed

lemma pool_inv_grow:
  assumes inv: "pool_inv s pool h"
    and gp: "get_pool h pool = Inr p" and full: "\<not> used p < size_f p"
    and ni: "index p + 1 \<noteq> count p"
    and cm1: "can_multiply SIZE_MAX (size_f p) 2"
    and cm2: "can_multiply SIZE_MAX (size_f p * 2) node_sz"
    and g: "grants h = True # g"
  shows "\<exists>h' a d ds b ns.
           pool = Some (a, 0) \<and> blocks p = Some (d, 0) \<and> cell h d = Some (Dir ds) \<and>
           length ds = 32 \<and> unat (index p) < 31 \<and>
           ds ! unat (index p) = Some (b, 0) \<and> cell h b = Some (Block ns) \<and>
           length ns = unat (size_f p) \<and> 0 < unat (size_f p) \<and>
           data_pool_alloc node_sz h pool = Inr (h', Some (length (cells h), 0)) \<and>
           cell h' = (\<lambda>x.
             if x = a then Some (Pool (p\<lparr>index := index p + 1, size_f := size_f p * 2, used := 1\<rparr>))
             else if x = d then Some (Dir (ds[unat (index p) + 1 := Some (length (cells h), 0)]))
             else if x = b then Some (Block (ns[unat (size_f p) - 1 :=
                    (ns ! (unat (size_f p) - 1))\<lparr>next := Some (length (cells h), 0)\<rparr>]))
             else if x = length (cells h)
               then Some (Block ((replicate (2 * unat (size_f p)) zero_node)
                      [0 := zero_node\<lparr>head := True\<rparr>]))
             else cell h x) \<and>
           frees h' = frees h \<and> grants h' = g \<and> length (cells h') = Suc (length (cells h)) \<and>
           pool_inv s pool h'"
proof -
  let ?n = "length (cells h)"
  let ?p' = "p\<lparr>index := index p + 1, size_f := size_f p * 2, used := 1\<rparr>"
  from inv obtain a p0 d ds where
    pool: "pool = Some (a, 0)" and a: "cell h a = Some (Pool p0)" and
    d: "blocks p0 = Some (d, 0)" and ds: "cell h d = Some (Dir ds)" and
    lds: "length ds = 32" and cnt: "count p0 = 32" and i: "unat (index p0) < 32" and
    s: "0 < s" and sz: "unat (size_f p0) = unat s * 2 ^ unat (index p0)" and
    us: "used p0 \<le> size_f p0" and
    sl: "\<forall>k\<le>unat (index p0).
       \<exists>b ns. ds ! k = Some (b, 0) \<and> cell h b = Some (Block ns) \<and> length ns = unat s * 2 ^ k" and
    z: "\<forall>k. unat (index p0) < k \<and> k < 32 \<longrightarrow> ds ! k = None"
    unfolding pool_inv_def by blast
  have pp: "p0 = p" using gp a pool by (simp add: get_pool_live)
  note a = a [unfolded pp] and d = d [unfolded pp] and cnt = cnt [unfolded pp]
    and i = i [unfolded pp] and sz = sz [unfolded pp] and sl = sl [unfolded pp]
    and z = z [unfolded pp]
  from sl obtain b ns where
    b: "ds ! unat (index p) = Some (b, 0)" and ns: "cell h b = Some (Block ns)" and
    len: "length ns = unat s * 2 ^ unat (index p)"
    by auto
  have len': "unat (size_f p) \<le> length ns" using len sz by simp
  have i31: "unat (index p) < 31"
  proof (rule ccontr)
    assume "\<not> unat (index p) < 31"
    with i have "unat (index p) = 31" by simp
    then have "index p = 31" by (simp add: word_unat_eq_iff)
    with ni cnt show False by simp
  qed
  have ui: "unat (index p + 1) = unat (index p) + 1"
    using i31 by (simp add: unat_word_ariths)
  have dbl: "unat (size_f p * 2) = 2 * unat (size_f p)" and pos: "0 < unat (size_f p)"
    using can_double [OF cm1] by simp_all
  from alloc_grow [OF a d ds lds i31 b ns len' full cnt cm1 cm2 g] obtain h' where
    res: "data_pool_alloc node_sz h (Some (a, 0)) = Inr (h', Some (?n, 0))" and
    c: "cell h' = (\<lambda>x.
             if x = a then Some (Pool ?p')
             else if x = d then Some (Dir (ds[unat (index p) + 1 := Some (?n, 0)]))
             else if x = b then Some (Block (ns[unat (size_f p) - 1 :=
                    (ns ! (unat (size_f p) - 1))\<lparr>next := Some (?n, 0)\<rparr>]))
             else if x = ?n
               then Some (Block ((replicate (2 * unat (size_f p)) zero_node)
                      [0 := zero_node\<lparr>head := True\<rparr>]))
             else cell h x)" and
    rest: "frees h' = frees h" "grants h' = g" "length (cells h') = Suc ?n"
    by blast
  have neq: "a \<noteq> d" "d \<noteq> b" "a \<noteq> b" using a ds ns by auto
  have live: "a \<noteq> ?n" "b \<noteq> ?n" "d \<noteq> ?n" using a ds ns by (auto dest: cell_live)
  have inv': "pool_inv s (Some (a, 0)) h'"
  proof (rule pool_invI [where p = ?p' and d = d
        and ds = "ds[unat (index p) + 1 := Some (?n, 0)]"])
    show "cell h' a = Some (Pool ?p')" by (simp add: c)
    show "cell h' d = Some (Dir (ds[unat (index p) + 1 := Some (?n, 0)]))"
      using neq by (simp add: c)
    show "unat (index ?p') < 32" using ui i31 by simp
    show "unat (size_f ?p') = unat s * 2 ^ unat (index ?p')"
      using dbl sz ui by simp
    show "used ?p' \<le> size_f ?p'"
      using dbl pos by (simp add: word_le_nat_alt)
    show "\<exists>b ns. ds[unat (index p) + 1 := Some (?n, 0)] ! k = Some (b, 0) \<and>
            cell h' b = Some (Block ns) \<and> length ns = unat s * 2 ^ k"
      if "k \<le> unat (index ?p')" for k
    proof (cases "k = unat (index p) + 1")
      case True
      then show ?thesis using lds i31 live sz by (simp add: c)
    next
      case False
      with that ui have kk: "k \<le> unat (index p)" by simp
      with sl obtain bk nk where
        k: "ds ! k = Some (bk, 0)" "cell h bk = Some (Block nk)" "length nk = unat s * 2 ^ k"
        by auto
      have "bk \<noteq> a" "bk \<noteq> d" "bk \<noteq> ?n" using k a ds by (auto dest: cell_live)
      then show ?thesis using k ns False by (auto simp: c)
    qed
    show "ds[unat (index p) + 1 := Some (?n, 0)] ! k = None"
      if "unat (index ?p') < k" "k < 32" for k
      using that z ui by simp
  qed (use d lds cnt s in simp_all)
  have "length ns = unat (size_f p)" using len sz by simp
  then show ?thesis
    using pool d ds lds i31 b ns pos res c rest inv' by blast
qed


lemma pool_inv_get_pool: "pool_inv s pool h \<Longrightarrow> \<exists>p. get_pool h pool = Inr p"
  unfolding pool_inv_def by (auto simp: get_pool_live)

lemma pool_inv_alloc:
  assumes inv: "pool_inv s pool h"
    and res: "data_pool_alloc node_sz h pool = Inr (h', Some e)"
  shows "pool_inv s pool h'"
proof -
  from pool_inv_get_pool [OF inv] obtain p where gp: "get_pool h pool = Inr p" by blast
  show ?thesis
  proof (cases "used p < size_f p")
    case True
    from pool_inv_take [OF inv gp True, of node_sz] res show ?thesis by auto
  next
    case False
    show ?thesis
    proof (cases "index p + 1 = count p \<or> \<not> can_multiply SIZE_MAX (size_f p) 2 \<or>
             \<not> can_multiply SIZE_MAX (size_f p * 2) node_sz \<or> \<not> (\<exists>g. grants h = True # g)")
      case True
      from pool_inv_refused [OF inv gp False True] res show ?thesis by auto
    next
      case no: False
      then obtain g where g: "grants h = True # g" by blast
      from no have "index p + 1 \<noteq> count p" "can_multiply SIZE_MAX (size_f p) 2"
        "can_multiply SIZE_MAX (size_f p * 2) node_sz" by blast+
      from pool_inv_grow [OF inv gp False this g] res show ?thesis by auto
    qed
  qed
qed

lemma data_pool_new_inv:
  assumes "data_pool_new node_sz h0 s = Inr (h, pool)" and "pool \<noteq> None"
  shows "pool_inv s pool h \<and>
         (\<exists>p. get_pool h pool = Inr p \<and> index p = 0 \<and> used p = 0 \<and> size_f p = s)"
proof -
  from data_pool_new_cases [of h0 s node_sz] assms obtain g where
    g: "grants h0 = True # True # True # g" and s: "s \<noteq> 0" and
    cm: "can_multiply SIZE_MAX s node_sz"
    by auto
  let ?n = "length (cells h0)"
  let ?p = "\<lparr>blocks = Some (?n + 1, 0), count = 32, index = 0, size_f = s, used = 0\<rparr>"
  let ?ds = "(replicate 32 None)[0 := Some (?n + 2, 0)]"
  from data_pool_new_ok [OF g s cm] assms(1) have
    pool: "pool = Some (?n, 0)" and
    c: "cell h = (\<lambda>x.
             if x = ?n then Some (Pool ?p)
             else if x = ?n + 1 then Some (Dir ?ds)
             else if x = ?n + 2
               then Some (Block ((replicate (unat s) zero_node)[0 := zero_node\<lparr>head := True\<rparr>]))
             else cell h0 x)"
    by auto
  have "pool_inv s (Some (?n, 0)) h"
  proof (rule pool_invI [where p = ?p and d = "?n + 1" and ds = ?ds])
    show "0 < s" using s by (simp add: word_gt_0)
  qed (simp_all add: c)
  moreover have "get_pool h pool = Inr ?p" by (simp add: pool get_pool_live c)
  ultimately show ?thesis using pool by simp
qed

lemma unat_inc: "unat (w :: size_t) < unat (v :: size_t) \<Longrightarrow> unat (w + 1) = unat w + 1"
proof -
  assume "unat w < unat v"
  moreover have "unat v < 2 ^ 64" using unsigned_less [of v] by simp
  ultimately have "unat w + 1 < 2 ^ 64" by simp
  then show ?thesis by (simp add: unat_word_ariths)
qed

text \<open>A write to one element changes the block it lies in and nothing else.\<close>

lemma upd_node_cells:
  assumes "upd_node h q f = Inr h'"
  shows "\<exists>a off ns. q = Some (a, off) \<and> cell h a = Some (Block ns) \<and> off < length ns \<and>
           cell h' = (\<lambda>x. if x = a then Some (Block (ns[off := f (ns ! off)])) else cell h x) \<and>
           frees h' = frees h \<and> grants h' = grants h \<and>
           length (cells h') = length (cells h)"
proof -
  from assms obtain v where v: "get_node h q = Inr v" and st: "set_node h q (f v) = Inr h'"
    by (auto simp: upd_node_def bind_eq_Inr)
  from v obtain a off ns where
    q: "q = Some (a, off)" "cell h a = Some (Block ns)" "off < length ns" "v = ns ! off"
    by (auto simp: get_node_Some)
  from st q have h': "h' = put h a (Block (ns[off := f (ns ! off)]))"
    by (simp add: set_node_def)
  have "cell h' = (\<lambda>x. if x = a then Some (Block (ns[off := f (ns ! off)])) else cell h x)"
    using q(2) by (auto simp: h' cell_put fun_eq_iff dest: cell_live)
  then show ?thesis using q by (simp add: h')
qed

lemma upd_node_get_pool:
  assumes "upd_node h q f = Inr h'"
  shows "get_pool h' pool = get_pool h pool"
proof -
  from upd_node_cells [OF assms] obtain a off ns where
    "cell h a = Some (Block ns)"
    "cell h' = (\<lambda>x. if x = a then Some (Block (ns[off := f (ns ! off)])) else cell h x)"
    by blast
  then show ?thesis
    by (auto simp: get_pool_def split: option.splits prod.splits)
qed

lemma pool_inv_upd_node:
  assumes inv: "pool_inv s pool h" and w: "upd_node h q f = Inr h'"
  shows "pool_inv s pool h'"
proof -
  from upd_node_cells [OF w] obtain t off ms where
    t: "cell h t = Some (Block ms)" and
    c: "cell h' = (\<lambda>x. if x = t then Some (Block (ms[off := f (ms ! off)])) else cell h x)"
    by blast
  from inv obtain a p d ds where
    pool: "pool = Some (a, 0)" and a: "cell h a = Some (Pool p)" and
    d: "blocks p = Some (d, 0)" and ds: "cell h d = Some (Dir ds)" and
    lds: "length ds = 32" and cnt: "count p = 32" and i: "unat (index p) < 32" and
    s: "0 < s" and sz: "unat (size_f p) = unat s * 2 ^ unat (index p)" and
    us: "used p \<le> size_f p" and
    sl: "\<forall>k\<le>unat (index p).
       \<exists>b ns. ds ! k = Some (b, 0) \<and> cell h b = Some (Block ns) \<and> length ns = unat s * 2 ^ k" and
    z: "\<forall>k. unat (index p) < k \<and> k < 32 \<longrightarrow> ds ! k = None"
    unfolding pool_inv_def by blast
  have neq: "a \<noteq> t" "d \<noteq> t" using a ds t by auto
  show ?thesis
    unfolding pool
  proof (rule pool_invI [where p = p and d = d and ds = ds])
    show "cell h' a = Some (Pool p)" using a neq by (simp add: c)
    show "cell h' d = Some (Dir ds)" using ds neq by (simp add: c)
    show "\<exists>b ns. ds ! k = Some (b, 0) \<and> cell h' b = Some (Block ns) \<and> length ns = unat s * 2 ^ k"
      if "k \<le> unat (index p)" for k
    proof -
      from sl that obtain bk nk where
        k: "ds ! k = Some (bk, 0)" "cell h bk = Some (Block nk)" "length nk = unat s * 2 ^ k"
        by blast
      then show ?thesis using t by (auto simp: c)
    qed
  qed (use d lds cnt i s sz us z in simp_all)
qed

lemma pool_after_inv_first:
  assumes "pool_after node_sz s pool n h"
  shows "pool_inv s pool h \<and>
         (n \<le> unat s \<longrightarrow> (\<exists>p. get_pool h pool = Inr p \<and> index p = 0 \<and> unat (used p) = n \<and>
            size_f p = s))"
  using assms
proof (induction rule: pool_after.induct)
  case (created h0 h)
  then show ?case using data_pool_new_inv by fastforce
next
  case (alloc n h h' e)
  then have inv: "pool_inv s pool h" by simp
  have inv': "pool_inv s pool h'" using inv alloc.hyps(2) by (rule pool_inv_alloc)
  have "\<exists>p. get_pool h' pool = Inr p \<and> index p = 0 \<and> unat (used p) = Suc n \<and> size_f p = s"
    if le: "Suc n \<le> unat s"
  proof -
    from alloc.IH le obtain p where
      gp: "get_pool h pool = Inr p" and p: "index p = 0" "unat (used p) = n" "size_f p = s"
      by auto
    have u: "used p < size_f p" using p le by (simp add: word_less_nat_alt)
    have "unat (used p + 1) = Suc n"
      using unat_inc [of "used p" s] p le by simp
    with pool_inv_take [OF inv gp u, of node_sz] alloc.hyps(2) p show ?thesis by auto
  qed
  with inv' show ?case by blast
next
  case (system n h g)
  then show ?case by (simp add: pool_inv_def)
next
  case (payload n h q v h')
  from payload.IH have inv: "pool_inv s pool h" by simp
  have "pool_inv s pool h'" using inv payload.hyps(2) by (rule pool_inv_upd_node)
  moreover have "get_pool h' pool = get_pool h pool"
    using payload.hyps(2) by (rule upd_node_get_pool)
  ultimately show ?case using payload.IH by simp
qed

text \<open>On a pool in use \<open>data_pool_alloc\<close> never faults: it returns an element or null.\<close>

lemma alloc_no_fault:
  assumes "pool_after node_sz s pool n h"
  shows "\<exists>h' r. data_pool_alloc node_sz h pool = Inr (h', r)"
proof -
  from pool_after_inv_first [OF assms] have inv: "pool_inv s pool h" by simp
  from pool_inv_get_pool [OF inv] obtain p where gp: "get_pool h pool = Inr p" by blast
  show ?thesis
  proof (cases "used p < size_f p")
    case True
    from pool_inv_take [OF inv gp True, of node_sz] show ?thesis by blast
  next
    case False
    show ?thesis
    proof (cases "index p + 1 = count p \<or> \<not> can_multiply SIZE_MAX (size_f p) 2 \<or>
             \<not> can_multiply SIZE_MAX (size_f p * 2) node_sz \<or> \<not> (\<exists>g. grants h = True # g)")
      case True
      from pool_inv_refused [OF inv gp False True] show ?thesis by blast
    next
      case no: False
      then obtain g where g: "grants h = True # g" by blast
      from no have "index p + 1 \<noteq> count p" "can_multiply SIZE_MAX (size_f p) 2"
        "can_multiply SIZE_MAX (size_f p * 2) node_sz" by blast+
      from pool_inv_grow [OF inv gp False this g] show ?thesis by blast
    qed
  qed
qed

subsection \<open>Lists\<close>

lemma get_list_head_head:
  "data_pool_get_list_head fuel h q = Inr (Some p) \<Longrightarrow> \<exists>m. get_node h (Some p) = Inr m \<and> head m"
proof (induction fuel arbitrary: q)
  case 0
  then show ?case by (cases q) simp_all
next
  case (Suc fuel)
  show ?case
  proof (cases q)
    case None
    with Suc.prems show ?thesis by simp
  next
    case (Some r)
    with Suc.prems Suc.IH show ?thesis
      by (auto split: sum.splits if_splits)
  qed
qed

lemma free_get_node:
  assumes "free h q = Inr h1" and "get_node h1 x = Inr n"
  shows "get_node h x = Inr n"
proof (cases q)
  case None
  with assms show ?thesis by (simp add: free_def)
next
  case (Some r)
  obtain a off where r: "r = (a, off)" by (cases r)
  from assms(1) Some r have live: "off = 0" "cell h a \<noteq> None"
    and h1: "h1 = h\<lparr>cells := (cells h)[a := None], frees := frees h @ [a]\<rparr>"
    by (auto simp: free_def split: if_splits)
  from assms(2) obtain b o2 ns where x: "x = Some (b, o2)" "cell h1 b = Some (Block ns)"
    "o2 < length ns" "n = ns ! o2"
    by (auto simp: get_node_Some)
  from x(2) have "b \<noteq> a" "cell h b = Some (Block ns)"
    by (auto simp: h1 cell_freed split: if_splits)
  with x show ?thesis by (simp add: get_node_Some)
qed

lemma list_destroy_False:
  "data_pool_list_destroy fuel h list = Inr (h', False) \<Longrightarrow>
   h' = h \<and> (\<exists>p n. list = Some p \<and> get_node h (Some p) = Inr n \<and> \<not> head n)"
proof (induction fuel arbitrary: h list)
  case 0
  then show ?case by (cases list) simp_all
next
  case (Suc fuel)
  show ?case
  proof (cases list)
    case None
    with Suc.prems show ?thesis by simp
  next
    case (Some p)
    from Suc.prems Some obtain n where n: "get_node h (Some p) = Inr n"
      by (auto split: sum.splits)
    show ?thesis
    proof (cases "head n")
      case False
      with Suc.prems Some n show ?thesis by simp
    next
      case True
      from Suc.prems Some n True obtain nx h1 where
        nx: "data_pool_get_list_head (Suc fuel) h (next n) = Inr nx" and
        fr: "free h (Some p) = Inr h1" and
        rec: "data_pool_list_destroy fuel h1 nx = Inr (h', False)"
        by (auto split: sum.splits)
      from Suc.IH [OF rec] obtain p' n' where
        p': "nx = Some p'" "get_node h1 (Some p') = Inr n'" "\<not> head n'"
        by blast
      from get_list_head_head [OF nx [unfolded p'(1)]] obtain m where
        m: "get_node h (Some p') = Inr m" "head m"
        by blast
      from free_get_node [OF fr p'(2)] m p'(3) show ?thesis by simp
    qed
  qed
qed

lemma list_destroy_not_head:
  "get_node h (Some p) = Inr n \<Longrightarrow> \<not> head n \<Longrightarrow>
   data_pool_list_destroy (Suc fuel) h (Some p) = Inr (h, False)"
  by simp


lemma node_okD:
  assumes "block_seg h a u" and "j < u"
  shows "\<exists>n. get_node h (Some (a, j)) = Inr n \<and> head n = (j = 0) \<and>
           (j + 1 < u \<longrightarrow> next n = Some (a, j + 1))"
proof -
  from assms have "node_ok h a u j" by (simp add: block_seg_def)
  then show ?thesis
    by (cases "get_node h (Some (a, j))") (simp_all add: node_ok_def)
qed

lemma seg_next_last:
  assumes "block_seg h a u" and "get_node h (Some (a, u - 1)) = Inr n"
  shows "next n = seg_next h a u"
  using assms by (simp add: seg_next_def)

lemma chain_start:
  assumes "chain h q segs"
  shows "q = None \<or> (\<exists>m. get_node h q = Inr m \<and> head m)"
proof (cases segs)
  case Nil
  with assms show ?thesis by simp
next
  case (Cons x xs)
  obtain a u where x: "x = (a, u)" by (cases x)
  from assms Cons x have q: "q = Some (a, 0)" and seg: "block_seg h a u" by simp_all
  from seg have "0 < u" by (simp add: block_seg_def)
  with node_okD [OF seg, of 0] obtain n where "get_node h (Some (a, 0)) = Inr n" "head n"
    by auto
  with q show ?thesis by simp
qed

lemma head_found:
  assumes "q = None \<or> (\<exists>m. get_node h q = Inr m \<and> head m)"
  shows "data_pool_get_list_head (Suc fuel) h q = Inr q"
  using assms by (cases q) auto

lemma scan_block:
  assumes seg: "block_seg h a u"
    and q: "seg_next h a u = None \<or> (\<exists>m. get_node h (seg_next h a u) = Inr m \<and> head m)"
  shows "0 < j \<Longrightarrow> j < u \<Longrightarrow> u - j < fuel \<Longrightarrow>
         data_pool_get_list_head fuel h (Some (a, j)) = Inr (seg_next h a u)"
proof (induction fuel arbitrary: j)
  case 0
  then show ?case by simp
next
  case (Suc fuel)
  from node_okD [OF seg \<open>j < u\<close>] obtain n where
    n: "get_node h (Some (a, j)) = Inr n" "head n = (j = 0)"
    "j + 1 < u \<longrightarrow> next n = Some (a, j + 1)"
    by blast
  have nh: "\<not> head n" using n(2) \<open>0 < j\<close> by simp
  show ?case
  proof (cases "j + 1 < u")
    case True
    then have "u - (j + 1) < fuel" using Suc.prems by simp
    with Suc.IH [of "j + 1"] True have
      "data_pool_get_list_head fuel h (Some (a, j + 1)) = Inr (seg_next h a u)"
      by simp
    with n nh True show ?thesis by simp
  next
    case False
    with \<open>j < u\<close> have ju: "j = u - 1" by simp
    with n(1) seg have nx: "next n = seg_next h a u" by (simp add: seg_next_last)
    from Suc.prems ju obtain f where f: "fuel = Suc f" by (cases fuel) auto
    show ?thesis using n(1) nh nx head_found [OF q, of f] f by simp
  qed
qed

lemma scan_from_head:
  assumes seg: "block_seg h a u"
    and q: "seg_next h a u = None \<or> (\<exists>m. get_node h (seg_next h a u) = Inr m \<and> head m)"
    and n: "get_node h (Some (a, 0)) = Inr n" and fuel: "u \<le> Suc fuel"
  shows "data_pool_get_list_head (Suc fuel) h (next n) = Inr (seg_next h a u)"
proof (cases "1 < u")
  case True
  from seg have "0 < u" by (simp add: block_seg_def)
  with node_okD [OF seg, of 0] obtain n' where "get_node h (Some (a, 0)) = Inr n'"
    "0 + 1 < u \<longrightarrow> next n' = Some (a, 0 + 1)"
    by blast
  with n True have "next n = Some (a, 1)" by simp
  moreover have "data_pool_get_list_head (Suc fuel) h (Some (a, 1)) = Inr (seg_next h a u)"
    using seg q _ True by (rule scan_block) (use fuel True in simp_all)
  ultimately show ?thesis by simp
next
  case False
  moreover from seg have "0 < u" by (simp add: block_seg_def)
  ultimately have "u = 1" by simp
  with n seg have "next n = seg_next h a u" by (simp add: seg_next_last)
  with head_found [OF q, of fuel] show ?thesis by simp
qed

lemma get_node_freed:
  "b \<noteq> a \<Longrightarrow>
   get_node (h\<lparr>cells := (cells h)[a := None], frees := fs\<rparr>) (Some (b, j)) = get_node h (Some (b, j))"
  by (simp add: get_node_def cell_freed)

lemma block_seg_freed:
  "b \<noteq> a \<Longrightarrow>
   block_seg (h\<lparr>cells := (cells h)[a := None], frees := fs\<rparr>) b u = block_seg h b u"
  by (simp add: block_seg_def node_ok_def get_node_freed)

lemma seg_next_freed:
  "b \<noteq> a \<Longrightarrow>
   seg_next (h\<lparr>cells := (cells h)[a := None], frees := fs\<rparr>) b u = seg_next h b u"
  by (simp add: seg_next_def get_node_freed)

lemma chain_freed:
  "a \<notin> fst ` set segs \<Longrightarrow>
   chain (h\<lparr>cells := (cells h)[a := None], frees := fs\<rparr>) q segs = chain h q segs"
proof (induction segs arbitrary: q)
  case Nil
  show ?case by simp
next
  case (Cons x segs)
  obtain b u where x: "x = (b, u)" by (cases x)
  from Cons.prems x have "b \<noteq> a" "a \<notin> fst ` set segs" by auto
  with Cons.IH x show ?case by (simp add: block_seg_freed seg_next_freed)
qed

lemma list_destroy_chain:
  "chain h list segs \<Longrightarrow> sum_list (map snd segs) \<le> fuel \<Longrightarrow>
   \<exists>h'. data_pool_list_destroy fuel h list = Inr (h', True) \<and>
        frees h' = frees h @ map fst segs \<and>
        cell h' = (\<lambda>x. if x \<in> fst ` set segs then None else cell h x) \<and>
        grants h' = grants h \<and> length (cells h') = length (cells h)"
proof (induction segs arbitrary: h list fuel)
  case Nil
  then show ?case by simp
next
  case (Cons x segs)
  obtain a u where x: "x = (a, u)" by (cases x)
  from Cons.prems(1) x have list: "list = Some (a, 0)" and new: "a \<notin> fst ` set segs"
    and seg: "block_seg h a u" and rest: "chain h (seg_next h a u) segs"
    by simp_all
  from seg have u: "0 < u" by (simp add: block_seg_def)
  with Cons.prems(2) x obtain f where f: "fuel = Suc f" by (cases fuel) auto
  from node_okD [OF seg u] obtain n where n: "get_node h (Some (a, 0)) = Inr n" and hd: "head n"
    by auto
  have uf: "u \<le> Suc f" using Cons.prems(2) x f by simp
  have scan: "data_pool_get_list_head (Suc f) h (next n) = Inr (seg_next h a u)"
    using seg chain_start [OF rest] n uf by (rule scan_from_head)
  from n obtain ns where ns: "cell h a = Some (Block ns)" by (auto simp: get_node_Some)
  let ?h1 = "h\<lparr>cells := (cells h)[a := None], frees := frees h @ [a]\<rparr>"
  have fr: "free h (Some (a, 0)) = Inr ?h1" using ns by (rule free_live)
  have rest1: "chain ?h1 (seg_next h a u) segs" using rest new by (simp add: chain_freed)
  have "sum_list (map snd segs) \<le> f" using Cons.prems(2) x f u by simp
  from Cons.IH [OF rest1 this] obtain h' where
    h': "data_pool_list_destroy f ?h1 (seg_next h a u) = Inr (h', True)"
    "frees h' = frees ?h1 @ map fst segs"
    "cell h' = (\<lambda>x. if x \<in> fst ` set segs then None else cell ?h1 x)"
    "grants h' = grants ?h1" "length (cells h') = length (cells ?h1)"
    by blast
  have "data_pool_list_destroy fuel h list = Inr (h', True)"
    using n hd scan fr h'(1) by (simp add: f list)
  moreover have "frees h' = frees h @ map fst (x # segs)" using h'(2) x by simp
  moreover have "cell h' = (\<lambda>x'. if x' \<in> fst ` set (x # segs) then None else cell h x')"
    using h'(3) x by (auto simp: fun_eq_iff cell_freed)
  moreover have "grants h' = grants h" "length (cells h') = length (cells h)"
    using h'(4,5) by simp_all
  ultimately show ?case by blast
qed


lemma chain_cong:
  assumes "get_node h' = get_node h"
  shows "chain h' q segs = chain h q segs"
proof (induction segs arbitrary: q)
  case Nil
  show ?case by simp
next
  case (Cons x segs)
  obtain b u where x: "x = (b, u)" by (cases x)
  with Cons.IH assms show ?case
    by (simp add: block_seg_def node_ok_def seg_next_def)
qed

lemma destroy_keep:
  assumes inv: "pool_inv s pool h"
  shows "\<exists>h' a d p. pool = Some (a, 0) \<and> get_pool h pool = Inr p \<and> blocks p = Some (d, 0) \<and>
           data_pool_destroy h pool True = Inr h' \<and> frees h' = frees h @ [d, a] \<and>
           cell h' = (\<lambda>x. if x = a \<or> x = d then None else cell h x) \<and>
           get_node h' = get_node h \<and> grants h' = grants h"
proof -
  from inv obtain a p d ds where
    pool: "pool = Some (a, 0)" and a: "cell h a = Some (Pool p)" and
    d: "blocks p = Some (d, 0)" and ds: "cell h d = Some (Dir ds)"
    unfolding pool_inv_def by blast
  have ad: "a \<noteq> d" using a ds by auto
  let ?h1 = "h\<lparr>cells := (cells h)[d := None], frees := frees h @ [d]\<rparr>"
  let ?h2 = "?h1\<lparr>cells := (cells ?h1)[a := None], frees := frees ?h1 @ [a]\<rparr>"
  have f1: "free h (Some (d, 0)) = Inr ?h1" using ds by (rule free_live)
  have "cell ?h1 a = Some (Pool p)" using a ad by (simp add: cell_freed)
  then have f2: "free ?h1 (Some (a, 0)) = Inr ?h2" by (rule free_live)
  have res: "data_pool_destroy h pool True = Inr ?h2"
    using a d f1 f2 by (simp add: data_pool_destroy_def pool get_pool_live)
  have c: "cell ?h2 = (\<lambda>x. if x = a \<or> x = d then None else cell h x)"
    using ad by (auto simp: fun_eq_iff cell_def)
  have gn: "get_node ?h2 = get_node h"
  proof
    fix q
    show "get_node ?h2 q = get_node h q"
    proof (cases q)
      case None
      then show ?thesis by (simp add: get_node_def)
    next
      case (Some r)
      obtain b j where "r = (b, j)" by (cases r)
      with Some a ds show ?thesis
        unfolding get_node_def c by (auto split: option.splits obj.splits)
    qed
  qed
  have "get_pool h pool = Inr p" using a pool by (simp add: get_pool_live)
  moreover have "frees ?h2 = frees h @ [d, a]" by simp
  moreover have "grants ?h2 = grants h" by simp
  ultimately show ?thesis using pool d res c gn by blast
qed

subsection \<open>The list a pool builds\<close>

lemma pool_inv_take_cells:
  assumes inv: "pool_inv s pool h"
    and gp: "get_pool h pool = Inr p" and u: "used p < size_f p"
  shows "\<exists>h' a d ds b ns.
           pool = Some (a, 0) \<and> blocks p = Some (d, 0) \<and> cell h d = Some (Dir ds) \<and>
           ds ! unat (index p) = Some (b, 0) \<and> cell h b = Some (Block ns) \<and>
           length ns = unat (size_f p) \<and>
           data_pool_alloc node_sz h pool = Inr (h', Some (b, unat (used p))) \<and>
           cell h' = (\<lambda>x.
             if x = a then Some (Pool (p\<lparr>used := used p + 1\<rparr>))
             else if x = b \<and> 0 < used p
               then Some (Block (ns[unat (used p) - 1 :=
                      (ns ! (unat (used p) - 1))\<lparr>next := Some (b, unat (used p))\<rparr>]))
             else cell h x)"
proof -
  from inv obtain a p0 d ds where
    pool: "pool = Some (a, 0)" and a: "cell h a = Some (Pool p0)" and
    d: "blocks p0 = Some (d, 0)" and ds: "cell h d = Some (Dir ds)" and
    lds: "length ds = 32" and i: "unat (index p0) < 32" and
    sz: "unat (size_f p0) = unat s * 2 ^ unat (index p0)" and
    sl: "\<forall>k\<le>unat (index p0).
       \<exists>b ns. ds ! k = Some (b, 0) \<and> cell h b = Some (Block ns) \<and> length ns = unat s * 2 ^ k"
    unfolding pool_inv_def by blast
  have pp: "p0 = p" using gp a pool by (simp add: get_pool_live)
  note a = a [unfolded pp] and d = d [unfolded pp]
    and i = i [unfolded pp] and sz = sz [unfolded pp] and sl = sl [unfolded pp]
  from sl obtain b ns where
    b: "ds ! unat (index p) = Some (b, 0)" and ns: "cell h b = Some (Block ns)" and
    len: "length ns = unat s * 2 ^ unat (index p)"
    by auto
  have len': "unat (size_f p) \<le> length ns" using len sz by simp
  have i': "unat (index p) < length ds" using i lds by simp
  from alloc_take [OF a d ds i' b ns len' u, of node_sz] obtain h' where
    "data_pool_alloc node_sz h (Some (a, 0)) = Inr (h', Some (b, unat (used p)))"
    "cell h' = (\<lambda>x.
             if x = a then Some (Pool (p\<lparr>used := used p + 1\<rparr>))
             else if x = b \<and> 0 < used p
               then Some (Block (ns[unat (used p) - 1 :=
                      (ns ! (unat (used p) - 1))\<lparr>next := Some (b, unat (used p))\<rparr>]))
             else cell h x)"
    by blast
  moreover have "length ns = unat (size_f p)" using len sz by simp
  ultimately show ?thesis using pool d ds b ns by blast
qed

lemma chain_distinct: "chain h q segs \<Longrightarrow> distinct (map fst segs)"
  by (induction segs arbitrary: q) fastforce+

lemma chain_live: "chain h q segs \<Longrightarrow> a \<in> fst ` set segs \<Longrightarrow> \<exists>ns. cell h a = Some (Block ns)"
proof (induction segs arbitrary: q)
  case Nil
  then show ?case by simp
next
  case (Cons x segs)
  obtain b u where x: "x = (b, u)" by (cases x)
  show ?case
  proof (cases "a = b")
    case True
    from Cons.prems(1) x have "block_seg h b u" by simp
    then have "0 < u" by (simp add: block_seg_def)
    from node_okD [OF \<open>block_seg h b u\<close> this] True show ?thesis
      by (auto simp: get_node_Some)
  next
    case False
    with Cons x show ?thesis by auto
  qed
qed

lemma chain_last: "chain h q (pre @ [(b, u)]) \<Longrightarrow> block_seg h b u"
proof (induction pre arbitrary: q)
  case Nil
  then show ?case by simp
next
  case (Cons x pre)
  obtain a ua where "x = (a, ua)" by (cases x)
  with Cons.prems have "chain h (seg_next h a ua) (pre @ [(b, u)])" by simp
  then show ?case by (rule Cons.IH)
qed

lemma block_seg_agree:
  "(\<And>j. get_node h' (Some (a, j)) = get_node h (Some (a, j))) \<Longrightarrow>
   block_seg h' a u = block_seg h a u \<and> seg_next h' a u = seg_next h a u"
  by (simp add: block_seg_def node_ok_def seg_next_def)

lemma chain_change_last:
  assumes agree: "\<And>a j. a \<in> fst ` set pre \<Longrightarrow> get_node h' (Some (a, j)) = get_node h (Some (a, j))"
    and last: "block_seg h' b u'" and rest: "chain h' (seg_next h' b u') tl_segs"
    and new: "fst ` set tl_segs \<inter> (insert b (fst ` set pre)) = {}"
  shows "chain h q (pre @ [(b, u)]) \<Longrightarrow> chain h' q (pre @ (b, u') # tl_segs)"
  using agree new
proof (induction pre arbitrary: q)
  case Nil
  then show ?case using last rest by auto
next
  case (Cons x pre)
  obtain a ua where x: "x = (a, ua)" by (cases x)
  from Cons.prems(1) x have q: "q = Some (a, 0)" and na: "a \<notin> fst ` set (pre @ [(b, u)])"
    and seg: "block_seg h a ua" and ch: "chain h (seg_next h a ua) (pre @ [(b, u)])"
    by simp_all
  have ag: "block_seg h' a ua = block_seg h a ua \<and> seg_next h' a ua = seg_next h a ua"
    by (rule block_seg_agree) (simp add: Cons.prems(2) x)
  have "chain h' (seg_next h a ua) (pre @ (b, u') # tl_segs)"
    using ch
  proof (rule Cons.IH)
    show "get_node h' (Some (a', j)) = get_node h (Some (a', j))" if "a' \<in> fst ` set pre" for a' j
      using that Cons.prems(2) by simp
    show "fst ` set tl_segs \<inter> insert b (fst ` set pre) = {}"
      using Cons.prems(3) by auto
  qed
  moreover have "a \<notin> fst ` set (pre @ (b, u') # tl_segs)"
    using na Cons.prems(3) x by auto
  ultimately show ?case using q seg ag x by simp
qed


lemma list_invI:
  assumes "cell h a = Some (Pool p)" "blocks p = Some (d, 0)" "cell h d = Some (Dir ds)"
    "ds ! unat (index p) = Some (b, 0)" "cell h b = Some (Block ns)"
    "\<And>j. j < length ns \<Longrightarrow> unat (used p) \<le> j \<Longrightarrow>
       head (ns ! j) = (j = 0) \<and> next (ns ! j) = None"
    "0 < used p" "chain h (ds ! 0) (pre @ [(b, unat (used p))])"
    "sum_list (map snd pre) + unat (used p) = Suc n"
  shows "list_inv (Some (a, 0)) (Suc n) h"
  unfolding list_inv_def
  apply (rule exI [of _ a], rule exI [of _ p], rule exI [of _ d], rule exI [of _ ds])
  apply (rule exI [of _ b], rule exI [of _ ns], rule exI [of _ pre])
  using assms by simp

lemma get_node_block:
  "cell h b = Some (Block ns) \<Longrightarrow> j < length ns \<Longrightarrow> get_node h (Some (b, j)) = Inr (ns ! j)"
  by (simp add: get_node_def)

lemma zero_node_simps [simp]:
  "head zero_node = False" "next zero_node = None"
  by (simp_all add: zero_node_def)

lemma list_inv_take:
  assumes inv: "pool_inv s pool h" and li: "list_inv pool n h"
    and gp: "get_pool h pool = Inr p" and u: "used p < size_f p"
    and first: "n = 0 \<longrightarrow> index p = 0"
    and res: "data_pool_alloc node_sz h pool = Inr (h', r)"
  shows "list_inv pool (Suc n) h'"
proof -
  from pool_inv_take_cells [OF inv gp u, of node_sz] res obtain a d ds b ns where
    pool: "pool = Some (a, 0)" and d: "blocks p = Some (d, 0)" and
    ds: "cell h d = Some (Dir ds)" and
    b: "ds ! unat (index p) = Some (b, 0)" and ns: "cell h b = Some (Block ns)" and
    len: "length ns = unat (size_f p)" and
    c: "cell h' = (\<lambda>x.
             if x = a then Some (Pool (p\<lparr>used := used p + 1\<rparr>))
             else if x = b \<and> 0 < used p
               then Some (Block (ns[unat (used p) - 1 :=
                      (ns ! (unat (used p) - 1))\<lparr>next := Some (b, unat (used p))\<rparr>]))
             else cell h x)"
    by auto
  have a: "cell h a = Some (Pool p)" using gp pool by (simp add: get_pool_Some)
  have neq: "a \<noteq> d" "d \<noteq> b" "a \<noteq> b" using a ds ns by auto
  let ?u = "unat (used p)"
  have ul: "?u < length ns" using u len by (simp add: word_less_nat_alt)
  have u1: "unat (used p + 1) = Suc ?u"
    using unat_inc [of "used p" "size_f p"] u by (simp add: word_less_nat_alt)
  have pos': "0 < used p + 1" using u1 by (simp add: word_less_nat_alt)
  from li obtain pre where
    spare: "\<forall>j<length ns. ?u \<le> j \<longrightarrow>
           head (ns ! j) = (j = 0) \<and> next (ns ! j) = None" and
    ch: "if n = 0 then used p = 0
         else 0 < used p \<and> chain h (ds ! 0) (pre @ [(b, ?u)]) \<and>
              sum_list (map snd pre) + ?u = n"
    unfolding list_inv_def using pool a d ds b ns by auto
  let ?ns' = "if 0 < used p
      then ns[?u - 1 := (ns ! (?u - 1))\<lparr>next := Some (b, ?u)\<rparr>] else ns"
  have cb: "cell h' b = Some (Block ?ns')" using neq ns by (simp add: c)
  have l': "length ?ns' = length ns" by simp
  have spare': "head (?ns' ! j) = (j = 0) \<and> next (?ns' ! j) = None"
    if "j < length ?ns'" "unat (used (p\<lparr>used := used p + 1\<rparr>)) \<le> j" for j
  proof -
    from that(1) have jl: "j < length ns" by (simp split: if_splits)
    from that(2) u1 have ge: "Suc ?u \<le> j" by simp
    with spare jl have "head (ns ! j) = (j = 0) \<and> next (ns ! j) = None" by auto
    moreover have "?ns' ! j = ns ! j" using ge by auto
    ultimately show ?thesis by simp
  qed
  show ?thesis
  proof (cases "n = 0")
    case True
    with ch first have z: "used p = 0" and i0: "index p = 0" by simp_all
    have n0: "head (ns ! 0)" "next (ns ! 0) = None" using spare ul z by simp_all
    have seg: "block_seg h' b (Suc 0)"
      using cb z ul n0 by (simp add: block_seg_def node_ok_def get_node_def)
    have nx: "seg_next h' b (Suc 0) = None"
      using cb z ul n0 by (simp add: seg_next_def get_node_def)
    have "chain h' (ds ! 0) ([] @ [(b, unat (used (p\<lparr>used := used p + 1\<rparr>)))])"
      using seg nx b i0 z by simp
    with True show ?thesis
      unfolding pool
      apply -
      apply (simp only:)
      apply (rule list_invI [where p = "p\<lparr>used := used p + 1\<rparr>" and d = d and ds = ds
            and b = b and ns = ?ns' and pre = "[]"])
      using d ds neq b cb spare' pos' z by (simp_all add: c)
  next
    case False
    with ch have up: "0 < used p" and old: "chain h (ds ! 0) (pre @ [(b, ?u)])"
      and sum: "sum_list (map snd pre) + ?u = n" by simp_all
    have upos: "0 < ?u" using up by (simp add: word_less_nat_alt)
    from chain_distinct [OF old] have bpre: "b \<notin> fst ` set pre" by auto
    have segold: "block_seg h b ?u" using old by (rule chain_last)
    have agree: "get_node h' (Some (a', j)) = get_node h (Some (a', j))"
      if "a' \<in> fst ` set pre" for a' j
    proof -
      from chain_live [OF old, of a'] that obtain ms where "cell h a' = Some (Block ms)" by auto
      with a bpre that have "a' \<noteq> a" "a' \<noteq> b" by auto
      then show ?thesis by (simp add: get_node_def c)
    qed
    have seg: "block_seg h' b (Suc ?u)"
      unfolding block_seg_def
    proof (intro conjI allI impI)
      fix j assume j: "j < Suc ?u"
      then have jl: "j < length ns" using ul by simp
      from j consider "j < ?u - 1" | "j = ?u - 1" | "j = ?u" using upos by linarith
      then show "node_ok h' b (Suc ?u) j"
      proof cases
        case 1
        then have "j < ?u" by simp
        from node_okD [OF segold this] ns jl 1 have
          "head (ns ! j) = (j = 0)" "next (ns ! j) = Some (b, j + 1)"
          by (auto simp: get_node_def)
        with 1 jl cb up show ?thesis by (simp add: node_ok_def get_node_def)
      next
        case 2
        then have "j < ?u" using upos by simp
        from node_okD [OF segold this] ns jl have "head (ns ! j) = (j = 0)"
          by (auto simp: get_node_def)
        with 2 jl cb up upos show ?thesis by (simp add: node_ok_def get_node_def)
      next
        case 3
        with spare jl upos have "\<not> head (ns ! j)" by simp
        with 3 jl cb up upos show ?thesis by (simp add: node_ok_def get_node_def)
      qed
    qed simp
    have nx: "seg_next h' b (Suc ?u) = None"
      using cb up upos ul spare by (simp add: seg_next_def get_node_def)
    have e1: "chain h' (seg_next h' b (Suc ?u)) []" using nx by simp
    have e2: "fst ` set ([] :: (addr \<times> nat) list) \<inter> insert b (fst ` set pre) = {}" by simp
    have new: "chain h' (ds ! 0) (pre @ (b, Suc ?u) # [])"
      using agree seg e1 e2 old by (rule chain_change_last)
    show ?thesis
      unfolding pool
      apply (rule list_invI [where p = "p\<lparr>used := used p + 1\<rparr>" and d = d and ds = ds
            and b = b and ns = ?ns' and pre = pre])
      using d ds neq b cb spare' pos' new sum u1 by (simp_all add: c)
  qed
qed


lemma list_inv_grow:
  assumes inv: "pool_inv s pool h" and li: "list_inv pool n h"
    and gp: "get_pool h pool = Inr p" and full: "\<not> used p < size_f p"
    and ni: "index p + 1 \<noteq> count p"
    and cm1: "can_multiply SIZE_MAX (size_f p) 2"
    and cm2: "can_multiply SIZE_MAX (size_f p * 2) node_sz"
    and g: "grants h = True # g"
    and res: "data_pool_alloc node_sz h pool = Inr (h', r)"
  shows "list_inv pool (Suc n) h'"
proof -
  let ?n = "length (cells h)"
  let ?p' = "p\<lparr>index := index p + 1, size_f := size_f p * 2, used := 1\<rparr>"
  let ?new = "(replicate (2 * unat (size_f p)) zero_node)[0 := zero_node\<lparr>head := True\<rparr>]"
  from pool_inv_grow [OF inv gp full ni cm1 cm2 g] res obtain a d ds b ns where
    pool: "pool = Some (a, 0)" and d: "blocks p = Some (d, 0)" and
    ds: "cell h d = Some (Dir ds)" and lds: "length ds = 32" and i31: "unat (index p) < 31" and
    b: "ds ! unat (index p) = Some (b, 0)" and ns: "cell h b = Some (Block ns)" and
    len: "length ns = unat (size_f p)" and pos: "0 < unat (size_f p)" and
    c: "cell h' = (\<lambda>x.
             if x = a then Some (Pool ?p')
             else if x = d then Some (Dir (ds[unat (index p) + 1 := Some (?n, 0)]))
             else if x = b then Some (Block (ns[unat (size_f p) - 1 :=
                    (ns ! (unat (size_f p) - 1))\<lparr>next := Some (?n, 0)\<rparr>]))
             else if x = ?n then Some (Block ?new)
             else cell h x)"
    by auto
  have a: "cell h a = Some (Pool p)" using gp pool by (simp add: get_pool_Some)
  have neq: "a \<noteq> d" "d \<noteq> b" "a \<noteq> b" using a ds ns by auto
  have live: "a \<noteq> ?n" "b \<noteq> ?n" "d \<noteq> ?n" using a ds ns by (auto dest: cell_live)
  have us: "used p = size_f p"
  proof -
    from inv gp have "used p \<le> size_f p"
      unfolding pool_inv_def by (auto simp: get_pool_live)
    with full show ?thesis by simp
  qed
  let ?u = "unat (used p)"
  have upos: "0 < ?u" and ulen: "?u = length ns" using us pos len by simp_all
  have ui: "unat (index p + 1) = unat (index p) + 1"
    using i31 by (simp add: unat_word_ariths)
  from li obtain pre where
    ch: "if n = 0 then used p = 0
         else 0 < used p \<and> chain h (ds ! 0) (pre @ [(b, ?u)]) \<and>
              sum_list (map snd pre) + ?u = n"
    unfolding list_inv_def using pool a d ds b ns by auto
  have n0: "n \<noteq> 0" using ch upos by (auto split: if_splits)
  with ch have old: "chain h (ds ! 0) (pre @ [(b, ?u)])"
    and sum: "sum_list (map snd pre) + ?u = n" by simp_all
  from chain_distinct [OF old] have bpre: "b \<notin> fst ` set pre" by auto
  have segold: "block_seg h b ?u" using old by (rule chain_last)
  have prelive: "a' \<noteq> a \<and> a' \<noteq> b \<and> a' \<noteq> d \<and> a' \<noteq> ?n" if "a' \<in> fst ` set pre" for a'
  proof -
    from chain_live [OF old, of a'] that obtain ms where "cell h a' = Some (Block ms)" by auto
    with a ds bpre that show ?thesis by (auto dest: cell_live)
  qed
  have agree: "get_node h' (Some (a', j)) = get_node h (Some (a', j))"
    if "a' \<in> fst ` set pre" for a' j
    using prelive [OF that] by (simp add: get_node_def c)
  let ?ns' = "ns[unat (size_f p) - 1 := (ns ! (unat (size_f p) - 1))\<lparr>next := Some (?n, 0)\<rparr>]"
  have cb: "cell h' b = Some (Block ?ns')" using neq by (simp add: c)
  have cn: "cell h' ?n = Some (Block ?new)" using live by (simp add: c)
  have seg: "block_seg h' b ?u"
    unfolding block_seg_def
  proof (intro conjI allI impI)
    fix j assume j: "j < ?u"
    then have jl: "j < length ns" using ulen by simp
    from node_okD [OF segold j] ns jl have
      hd: "head (ns ! j) = (j = 0)" and nx: "j + 1 < ?u \<longrightarrow> next (ns ! j) = Some (b, j + 1)"
      by (auto simp: get_node_def)
    show "node_ok h' b ?u j"
    proof (cases "j = ?u - 1")
      case True
      with jl cb hd us show ?thesis by (simp add: node_ok_def get_node_def)
    next
      case False
      with jl cb hd nx us show ?thesis by (simp add: node_ok_def get_node_def)
    qed
  qed (rule upos)
  have nxb: "seg_next h' b ?u = Some (?n, 0)"
    using cb us ulen upos by (simp add: seg_next_def get_node_def)
  have segn: "block_seg h' ?n (Suc 0)"
    using cn pos by (simp add: block_seg_def node_ok_def get_node_def)
  have nxn: "seg_next h' ?n (Suc 0) = None"
    using cn pos by (simp add: seg_next_def get_node_def)
  have e1: "chain h' (seg_next h' b ?u) [(?n, Suc 0)]"
    using nxb segn nxn by simp
  have e2: "fst ` set [(?n, Suc 0)] \<inter> insert b (fst ` set pre) = {}"
    using live prelive by auto
  have new: "chain h' (ds ! 0) (pre @ (b, ?u) # [(?n, Suc 0)])"
    using agree seg e1 e2 old by (rule chain_change_last)
  have spare': "head (?new ! j) = (j = 0) \<and> next (?new ! j) = None"
    if "j < length ?new" for j
    using that by (cases j) simp_all
  show ?thesis
    unfolding pool
    apply (rule list_invI [where p = ?p' and d = d
          and ds = "ds[unat (index p) + 1 := Some (?n, 0)]"
          and b = ?n and ns = ?new and pre = "pre @ [(b, ?u)]"])
    using d neq live lds i31 ui cn spare' new sum by (simp_all add: c)
qed

lemma list_inv_new:
  assumes "data_pool_new node_sz h0 s = Inr (h, pool)" and "pool \<noteq> None"
  shows "list_inv pool 0 h"
proof -
  from data_pool_new_cases [of h0 s node_sz] assms obtain g where
    g: "grants h0 = True # True # True # g" and s: "s \<noteq> 0" and
    cm: "can_multiply SIZE_MAX s node_sz"
    by auto
  let ?n = "length (cells h0)"
  let ?p = "\<lparr>blocks = Some (?n + 1, 0), count = 32, index = 0, size_f = s, used = 0\<rparr>"
  let ?ds = "(replicate 32 None)[0 := Some (?n + 2, 0)]"
  let ?ns = "(replicate (unat s) zero_node)[0 := zero_node\<lparr>head := True\<rparr>]"
  from data_pool_new_ok [OF g s cm] assms(1) have
    pool: "pool = Some (?n, 0)" and
    c: "cell h = (\<lambda>x.
             if x = ?n then Some (Pool ?p)
             else if x = ?n + 1 then Some (Dir ?ds)
             else if x = ?n + 2 then Some (Block ?ns)
             else cell h0 x)"
    by auto
  have spare: "head (?ns ! j) = (j = 0) \<and> next (?ns ! j) = None"
    if "j < length ?ns" for j
    using that by (cases j) simp_all
  show ?thesis
    unfolding list_inv_def pool
    apply (rule exI [of _ ?n], rule exI [of _ ?p], rule exI [of _ "?n + 1"],
        rule exI [of _ ?ds], rule exI [of _ "?n + 2"], rule exI [of _ ?ns], rule exI [of _ "[]"])
    using spare by (simp add: c)
qed

lemma chain_grants [simp]: "chain (h\<lparr>grants := g\<rparr>) q segs = chain h q segs"
  by (rule chain_cong) simp

lemma list_inv_grants: "list_inv pool n (h\<lparr>grants := g\<rparr>) = list_inv pool n h"
  by (simp only: list_inv_def cell_grants chain_grants)

text \<open>A write to a payload leaves \<open>head\<close> and \<open>next\<close> of every element as they are,
  and so every well-formed list.\<close>

lemma same_payload: "\<exists>w. n = n\<lparr>entry_data := w\<rparr>"
  by (rule exI [of _ "entry_data n"]) simp

lemma payload_get_node:
  assumes "upd_node h q (\<lambda>e. e\<lparr>entry_data := v\<rparr>) = Inr h'"
  shows "case get_node h x of
           Inl e \<Rightarrow> get_node h' x = Inl e
         | Inr n \<Rightarrow> \<exists>w. get_node h' x = Inr (n\<lparr>entry_data := w\<rparr>)"
proof -
  from upd_node_cells [OF assms] obtain t off ms where
    t: "cell h t = Some (Block ms)" "off < length ms" and
    c: "cell h' = (\<lambda>x. if x = t
          then Some (Block (ms[off := (ms ! off)\<lparr>entry_data := v\<rparr>])) else cell h x)"
    by blast
  show ?thesis
  proof (cases x)
    case None
    then show ?thesis by (simp add: get_node_def)
  next
    case (Some r)
    obtain a j where r: "r = (a, j)" by (cases r)
    show ?thesis
    proof (cases "a = t")
      case False
      then show ?thesis
        unfolding Some r get_node_def c
        by (auto split: option.splits obj.splits simp: same_payload)
    next
      case True
      show ?thesis
      proof (cases "j < length ms")
        case False
        then show ?thesis using t True by (simp add: Some r get_node_def c)
      next
        case jl: True
        show ?thesis
        proof (cases "j = off")
          case True
          then show ?thesis using t \<open>a = t\<close> jl
            by (auto simp: Some r get_node_def c)
        next
          case False
          then show ?thesis using t \<open>a = t\<close> jl
            by (auto simp: Some r get_node_def c same_payload)
        qed
      qed
    qed
  qed
qed

lemma payload_block_seg:
  assumes "upd_node h q (\<lambda>e. e\<lparr>entry_data := v\<rparr>) = Inr h'"
  shows "block_seg h' a u = block_seg h a u \<and> seg_next h' a u = seg_next h a u"
proof -
  have ok: "node_ok h' a u j = node_ok h a u j" for j
    using payload_get_node [OF assms, of "Some (a, j)"]
    by (cases "get_node h (Some (a, j))") (auto simp: node_ok_def)
  have "seg_next h' a u = seg_next h a u"
    using payload_get_node [OF assms, of "Some (a, u - 1)"]
    by (cases "get_node h (Some (a, u - 1))") (auto simp: seg_next_def)
  with ok show ?thesis by (simp add: block_seg_def)
qed

lemma payload_chain:
  assumes "upd_node h q (\<lambda>e. e\<lparr>entry_data := v\<rparr>) = Inr h'"
  shows "chain h' x segs = chain h x segs"
proof (induction segs arbitrary: x)
  case Nil
  show ?case by simp
next
  case (Cons y segs)
  obtain b u where "y = (b, u)" by (cases y)
  with Cons.IH payload_block_seg [OF assms, of b u] show ?case by simp
qed

lemma list_inv_payload:
  assumes li: "list_inv pool n h" and w: "upd_node h q (\<lambda>e. e\<lparr>entry_data := v\<rparr>) = Inr h'"
  shows "list_inv pool n h'"
proof -
  from upd_node_cells [OF w] obtain t off ms where
    t: "cell h t = Some (Block ms)" "off < length ms" and
    c: "cell h' = (\<lambda>x. if x = t
          then Some (Block (ms[off := (ms ! off)\<lparr>entry_data := v\<rparr>])) else cell h x)"
    by blast
  from li obtain a p d ds b ns pre where
    pool: "pool = Some (a, 0)" and a: "cell h a = Some (Pool p)" and
    d: "blocks p = Some (d, 0)" and ds: "cell h d = Some (Dir ds)" and
    b: "ds ! unat (index p) = Some (b, 0)" and ns: "cell h b = Some (Block ns)" and
    spare: "\<forall>j<length ns. unat (used p) \<le> j \<longrightarrow>
           head (ns ! j) = (j = 0) \<and> next (ns ! j) = None" and
    ch: "if n = 0 then used p = 0
         else 0 < used p \<and> chain h (ds ! 0) (pre @ [(b, unat (used p))]) \<and>
              sum_list (map snd pre) + unat (used p) = n"
    unfolding list_inv_def by blast
  have neq: "a \<noteq> t" "d \<noteq> t" using a ds t by auto
  define ns' where "ns' = (if b = t then ns[off := (ns ! off)\<lparr>entry_data := v\<rparr>] else ns)"
  have bt: "b = t \<Longrightarrow> ms = ns" using t ns by simp
  have cb: "cell h' b = Some (Block ns')" using ns bt by (simp add: c ns'_def)
  have ca: "cell h' a = Some (Pool p)" using a neq by (simp add: c)
  have cd: "cell h' d = Some (Dir ds)" using ds neq by (simp add: c)
  have len: "length ns' = length ns" by (simp add: ns'_def)
  have same: "head (ns' ! j) = head (ns ! j) \<and> next (ns' ! j) = next (ns ! j)"
    if "j < length ns" for j
    using that by (cases "j = off") (simp_all add: ns'_def)
  have spare': "\<forall>j<length ns'. unat (used p) \<le> j \<longrightarrow>
           head (ns' ! j) = (j = 0) \<and> next (ns' ! j) = None"
  proof (intro allI impI)
    fix j assume "j < length ns'" and u: "unat (used p) \<le> j"
    then have jl: "j < length ns" by (simp only: len)
    with spare u have "head (ns ! j) = (j = 0) \<and> next (ns ! j) = None" by simp
    with same [OF jl] show "head (ns' ! j) = (j = 0) \<and> next (ns' ! j) = None" by simp
  qed
  have ch': "if n = 0 then used p = 0
         else 0 < used p \<and> chain h' (ds ! 0) (pre @ [(b, unat (used p))]) \<and>
              sum_list (map snd pre) + unat (used p) = n"
    using ch by (simp only: payload_chain [OF w])
  show ?thesis
    unfolding list_inv_def pool
    apply (rule exI [of _ a], rule exI [of _ p], rule exI [of _ d], rule exI [of _ ds])
    apply (rule exI [of _ b], rule exI [of _ ns'], rule exI [of _ pre])
    using ca d cd b cb spare' ch' by (intro conjI) simp_all
qed

lemma pool_after_list_inv:
  assumes "pool_after node_sz s pool n h"
  shows "list_inv pool n h"
  using assms
proof (induction rule: pool_after.induct)
  case (created h0 h)
  then show ?case by (rule list_inv_new)
next
  case (alloc n h h' e)
  from pool_after_inv_first [OF alloc.hyps(1)] have
    inv: "pool_inv s pool h" and
    fst: "n \<le> unat s \<longrightarrow> (\<exists>p. get_pool h pool = Inr p \<and> index p = 0)"
    by auto
  from pool_inv_get_pool [OF inv] obtain p where gp: "get_pool h pool = Inr p" by blast
  have first: "n = 0 \<longrightarrow> index p = 0" using fst gp by auto
  show ?case
  proof (cases "used p < size_f p")
    case True
    from inv alloc.IH gp True first alloc.hyps(2) show ?thesis by (rule list_inv_take)
  next
    case False
    have ok: "\<not> (index p + 1 = count p \<or> \<not> can_multiply SIZE_MAX (size_f p) 2 \<or>
             \<not> can_multiply SIZE_MAX (size_f p * 2) node_sz \<or> \<not> (\<exists>g. grants h = True # g))"
    proof
      assume "index p + 1 = count p \<or> \<not> can_multiply SIZE_MAX (size_f p) 2 \<or>
             \<not> can_multiply SIZE_MAX (size_f p * 2) node_sz \<or> \<not> (\<exists>g. grants h = True # g)"
      from pool_inv_refused [OF inv gp False this] alloc.hyps(2) show False by auto
    qed
    then obtain g where g: "grants h = True # g" by blast
    from ok have "index p + 1 \<noteq> count p" "can_multiply SIZE_MAX (size_f p) 2"
      "can_multiply SIZE_MAX (size_f p * 2) node_sz" by blast+
    from inv alloc.IH gp False this g alloc.hyps(2) show ?thesis by (rule list_inv_grow)
  qed
next
  case (system n h g)
  then show ?case by (simp only: list_inv_grants)
next
  case (payload n h q v h')
  from payload.IH payload.hyps(2) show ?case by (rule list_inv_payload)
qed

lemma pool_list_chain:
  assumes "pool_after node_sz s pool n h" and "0 < n"
  shows "\<exists>p q segs. get_pool h pool = Inr p \<and> get_slot h (blocks p) 0 = Inr q \<and>
           chain h q segs \<and> sum_list (map snd segs) = n"
proof -
  from pool_after_inv_first [OF assms(1)] have inv: "pool_inv s pool h" by simp
  from pool_after_list_inv [OF assms(1)] assms(2) obtain a p d ds b pre where
    *: "pool = Some (a, 0)" "cell h a = Some (Pool p)" "blocks p = Some (d, 0)"
    "cell h d = Some (Dir ds)" "chain h (ds ! 0) (pre @ [(b, unat (used p))])"
    "sum_list (map snd pre) + unat (used p) = n"
    unfolding list_inv_def by auto
  from inv * have "length ds = 32" unfolding pool_inv_def by auto
  with * have "get_slot h (blocks p) 0 = Inr (ds ! 0)" by (simp add: get_slot_live)
  moreover have "get_pool h pool = Inr p" using * by (simp add: get_pool_live)
  moreover have "sum_list (map snd (pre @ [(b, unat (used p))])) = n" using *(6) by simp
  ultimately show ?thesis using *(5) by blast
qed

subsection \<open>The example run\<close>

lemma replicate_2: "replicate 2 x = [x, x]"
  by (simp add: numeral_2_eq_2)

lemmas run_defs =
  data_pool_new_def data_pool_alloc_def calloc_def sizeof_pool_def sizeof_ptr_def
  SIZE_MAX_def upd_pool_def get_pool_def set_pool_def cell_def put_def can_multiply_def
  zero_pool_def zero_node_def set_slot_def get_slot_def upd_node_def get_node_def set_node_def
  ptr_add_def ptr_sub_def Let_def
  numeral_2_eq_2 [symmetric] numeral_3_eq_3 [symmetric] replicate_2

lemma ex_new: "data_pool_new 16 ex_h0 1 = Inr (ex_h1, Some (0, 0))"
  by (simp add: ex_h0_def ex_h1_def ex_pool_def ex_node_def run_defs)

lemma ex_alloc1: "data_pool_alloc 16 ex_h1 (Some (0, 0)) = Inr (ex_h2, Some (2, 0))"
  by (simp add: ex_h1_def ex_h2_def ex_pool_def ex_node_def run_defs)

lemma ex_alloc2: "data_pool_alloc 16 ex_h2 (Some (0, 0)) = Inr (ex_h3, Some (3, 0))"
  by (simp add: ex_h2_def ex_h3_def ex_pool_def ex_node_def run_defs)

lemma ex_alloc3: "data_pool_alloc 16 ex_h3 (Some (0, 0)) = Inr (ex_h4, Some (3, 1))"
  by (simp add: ex_h3_def ex_h4_def ex_pool_def ex_node_def run_defs)

lemma ex_after0: "pool_after 16 1 (Some (0, 0)) 0 ex_h1"
  using ex_new by (rule pool_after.created) simp

lemma ex_after1: "pool_after 16 1 (Some (0, 0)) 1 ex_h2"
  using pool_after.alloc [OF ex_after0 ex_alloc1] by simp

lemma ex_after2: "pool_after 16 1 (Some (0, 0)) 2 ex_h3"
  using pool_after.alloc [OF ex_after1 ex_alloc2] by (simp add: numeral_2_eq_2)

lemma ex_after3: "pool_after 16 1 (Some (0, 0)) 3 ex_h4"
  using pool_after.alloc [OF ex_after2 ex_alloc3] by (simp add: numeral_3_eq_3)

lemma ex_after_refused_data: "pool_after 16 1 (Some (0, 0)) 1 ex_refused_data"
proof -
  have w: "upd_node ex_h2 (Some (2, 0)) (\<lambda>e. e\<lparr>entry_data := 7\<rparr>) =
      Inr (ex_refused_data\<lparr>grants := [True]\<rparr>)"
    by (simp add: ex_h2_def ex_refused_data_def ex_pool_def ex_node_def run_defs)
  have "pool_after 16 1 (Some (0, 0)) 1 (ex_refused_data\<lparr>grants := [True], grants := []\<rparr>)"
    by (rule pool_after.system [OF pool_after.payload [OF ex_after1 w]])
  then show ?thesis by (simp add: ex_refused_data_def)
qed

lemma ex_after_h4_data: "pool_after 16 1 (Some (0, 0)) 3 ex_h4_data"
proof -
  have w1: "upd_node ex_h4 (Some (2, 0)) (\<lambda>e. e\<lparr>entry_data := 7\<rparr>) =
      Inr (ex_h4\<lparr>cells := (cells ex_h4)[2 :=
        Some (Block [\<lparr>head = True, next = Some (3, 0), entry_data = 7\<rparr>])]\<rparr>)"
    by (simp add: ex_h4_def ex_pool_def ex_node_def run_defs)
  have w2: "upd_node (ex_h4\<lparr>cells := (cells ex_h4)[2 :=
        Some (Block [\<lparr>head = True, next = Some (3, 0), entry_data = 7\<rparr>])]\<rparr>)
      (Some (3, 1)) (\<lambda>e. e\<lparr>entry_data := 9\<rparr>) = Inr ex_h4_data"
    by (simp add: ex_h4_def ex_h4_data_def ex_pool_def ex_node_def run_defs)
  show ?thesis
    by (rule pool_after.payload [OF pool_after.payload [OF ex_after3 w1] w2])
qed

lemma ex_chain: "chain ex_h4 (Some (2, 0)) ex_segs"
  by (simp add: ex_segs_def block_seg_def node_ok_def seg_next_def get_node_def cell_def ex_h4_def
      ex_node_def less_Suc_eq numeral_2_eq_2 numeral_3_eq_3)

section \<open>The claims\<close>

subsection \<open>Growth\<close>

text \<open>
  C1. On a pool created with the size \<open>s\<close> on which exactly \<open>s\<close> calls of
  \<open>data_pool_alloc\<close> have returned an element, the block in use is full (\<open>index = 0\<close>,
  \<open>size = used = s\<close>). If the two size checks pass and the system grants the memory,
  the next call allocates a new block (at an address \<open>nb\<close> not in use before) of
  \<open>2 * s\<close> elements whose first element is flagged \<open>head\<close>, stores it in the slot
  \<open>index + 1\<close>, sets \<open>next\<close> of the last element of the block before to the new
  block's first element, sets \<open>index\<close> one higher, \<open>size = 2 * s\<close> and \<open>used = 1\<close>, and
  returns the new block's first element.
\<close>

theorem growth_after_first_block:
  assumes after: "pool_after node_sz s pool (unat s) h"
    and cm1: "can_multiply SIZE_MAX s 2"
    and cm2: "can_multiply SIZE_MAX (s * 2) node_sz"
    and g: "grants h = True # g"
  shows "\<exists>h' p p' b ns nb ns' nd.
      get_pool h pool = Inr p \<and> index p = 0 \<and> size_f p = s \<and> used p = s \<and>
      get_slot h (blocks p) 0 = Inr (Some (b, 0)) \<and>
      cell h b = Some (Block ns) \<and> length ns = unat s \<and>
      cell h nb = None \<and>
      data_pool_alloc node_sz h pool = Inr (h', Some (nb, 0)) \<and>
      cell h' nb = Some (Block ns') \<and> length ns' = 2 * unat s \<and> head (ns' ! 0) \<and>
      get_pool h' pool = Inr p' \<and> index p' = index p + 1 \<and>
      size_f p' = s * 2 \<and> unat (size_f p') = 2 * unat s \<and> used p' = 1 \<and>
      get_slot h' (blocks p') (unat (index p')) = Inr (Some (nb, 0)) \<and>
      get_node h' (Some (b, unat s - 1)) = Inr nd \<and> next nd = Some (nb, 0)"
proof -
  from pool_after_inv_first [OF after] obtain p where
    inv: "pool_inv s pool h" and gp: "get_pool h pool = Inr p" and
    i: "index p = 0" and u: "unat (used p) = unat s" and sz: "size_f p = s"
    by auto
  have us: "used p = s" using u by (simp add: word_unat_eq_iff)
  have full: "\<not> used p < size_f p" using us sz by simp
  have cnt: "count p = 32" using inv gp unfolding pool_inv_def by (auto simp: get_pool_live)
  have ni: "index p + 1 \<noteq> count p" using i cnt by simp
  let ?n = "length (cells h)"
  let ?p' = "p\<lparr>index := index p + 1, size_f := size_f p * 2, used := 1\<rparr>"
  from pool_inv_grow [OF inv gp full ni cm1 [folded sz] cm2 [folded sz] g]
  obtain h' a d ds b ns where
    pool: "pool = Some (a, 0)" and d: "blocks p = Some (d, 0)" and
    ds: "cell h d = Some (Dir ds)" "length ds = 32" and
    b: "ds ! unat (index p) = Some (b, 0)" and ns: "cell h b = Some (Block ns)" and
    len: "length ns = unat (size_f p)" and pos: "0 < unat (size_f p)" and
    res: "data_pool_alloc node_sz h pool = Inr (h', Some (?n, 0))" and
    c: "cell h' = (\<lambda>x.
             if x = a then Some (Pool ?p')
             else if x = d then Some (Dir (ds[unat (index p) + 1 := Some (?n, 0)]))
             else if x = b then Some (Block (ns[unat (size_f p) - 1 :=
                    (ns ! (unat (size_f p) - 1))\<lparr>next := Some (?n, 0)\<rparr>]))
             else if x = ?n
               then Some (Block ((replicate (2 * unat (size_f p)) zero_node)
                      [0 := zero_node\<lparr>head := True\<rparr>]))
             else cell h x)"
    by blast
  have a: "cell h a = Some (Pool p)" using gp pool by (simp add: get_pool_Some)
  have neq: "a \<noteq> d" "d \<noteq> b" "a \<noteq> b" using a ds ns by auto
  have live: "a \<noteq> ?n" "b \<noteq> ?n" "d \<noteq> ?n" using a ds ns by (auto dest: cell_live)
  let ?ns' = "(replicate (2 * unat s) zero_node)[0 := zero_node\<lparr>head := True\<rparr>]"
  let ?nd = "(ns ! (unat s - 1))\<lparr>next := Some (?n, 0)\<rparr>"
  have 1: "get_slot h (blocks p) 0 = Inr (Some (b, 0))"
    using d ds b i by (simp add: get_slot_live)
  have 2: "cell h ?n = None" by (simp add: cell_def)
  have 3: "cell h' ?n = Some (Block ?ns')" using live sz by (simp add: c)
  have 4: "length ?ns' = 2 * unat s" "head (?ns' ! 0)" using pos sz by simp_all
  have 5: "get_pool h' pool = Inr ?p'" by (simp add: pool get_pool_live c)
  have 6: "unat (size_f ?p') = 2 * unat s" using can_double(1) [OF cm1] sz by simp
  have 7: "get_slot h' (blocks ?p') (unat (index ?p')) = Inr (Some (?n, 0))"
    using d ds neq i by (simp add: get_slot_def c)
  have 8: "get_node h' (Some (b, unat s - 1)) = Inr ?nd" "next ?nd = Some (?n, 0)"
    using neq live len pos sz by (simp_all add: get_node_def c)
  show ?thesis
    using gp i sz us 1 ns len 2 res 3 4 5 6 7 8 by (auto simp: sz)
qed

theorem growth_after_first_block_witness:
  "pool_after 16 1 (Some (0, 0)) (unat (1 :: size_t)) ex_h2 \<and>
   can_multiply SIZE_MAX 1 2 \<and> can_multiply SIZE_MAX (1 * 2) 16 \<and> grants ex_h2 = True # [] \<and>
   (\<exists>h' p p' b ns nb ns' nd.
      get_pool ex_h2 (Some (0, 0)) = Inr p \<and> index p = 0 \<and> size_f p = 1 \<and> used p = 1 \<and>
      get_slot ex_h2 (blocks p) 0 = Inr (Some (b, 0)) \<and>
      cell ex_h2 b = Some (Block ns) \<and> length ns = unat (1 :: size_t) \<and>
      cell ex_h2 nb = None \<and>
      data_pool_alloc 16 ex_h2 (Some (0, 0)) = Inr (h', Some (nb, 0)) \<and>
      cell h' nb = Some (Block ns') \<and> length ns' = 2 * unat (1 :: size_t) \<and> head (ns' ! 0) \<and>
      get_pool h' (Some (0, 0)) = Inr p' \<and> index p' = index p + 1 \<and>
      size_f p' = 1 * 2 \<and> unat (size_f p') = 2 * unat (1 :: size_t) \<and> used p' = 1 \<and>
      get_slot h' (blocks p') (unat (index p')) = Inr (Some (nb, 0)) \<and>
      get_node h' (Some (b, unat (1 :: size_t) - 1)) = Inr nd \<and> next nd = Some (nb, 0))"
proof -
  have a: "pool_after 16 1 (Some (0, 0)) (unat (1 :: size_t)) ex_h2"
    using ex_after1 by simp
  have b: "can_multiply SIZE_MAX 1 2" "can_multiply SIZE_MAX (1 * 2) 16"
    by (simp_all add: can_multiply_def SIZE_MAX_def)
  have c: "grants ex_h2 = True # []" by (simp add: ex_h2_def)
  from growth_after_first_block [OF a b c] a b c show ?thesis by blast
qed

text \<open>
  C4. After \<open>data_pool_new\<close> for the size \<open>s\<close> and any number of calls of
  \<open>data_pool_alloc\<close> that returned an element, \<open>size = s * 2 ^ index\<close> (in the natural
  numbers), and every block \<open>k\<close> up to \<open>index\<close> has \<open>s * 2 ^ k\<close> elements.
\<close>

theorem block_sizes_double:
  assumes "pool_after node_sz s pool n h"
  shows "\<exists>p. get_pool h pool = Inr p \<and>
           unat (size_f p) = unat s * 2 ^ unat (index p) \<and>
           (\<forall>k\<le>unat (index p). \<exists>b ns.
              get_slot h (blocks p) k = Inr (Some (b, 0)) \<and>
              cell h b = Some (Block ns) \<and> length ns = unat s * 2 ^ k)"
proof -
  from pool_after_inv_first [OF assms] have "pool_inv s pool h" by simp
  then obtain a p d ds where
    pool: "pool = Some (a, 0)" and a: "cell h a = Some (Pool p)" and
    d: "blocks p = Some (d, 0)" and ds: "cell h d = Some (Dir ds)" and
    lds: "length ds = 32" and i: "unat (index p) < 32" and
    sz: "unat (size_f p) = unat s * 2 ^ unat (index p)" and
    sl: "\<forall>k\<le>unat (index p).
       \<exists>b ns. ds ! k = Some (b, 0) \<and> cell h b = Some (Block ns) \<and> length ns = unat s * 2 ^ k"
    unfolding pool_inv_def by blast
  have "\<exists>b ns. get_slot h (blocks p) k = Inr (Some (b, 0)) \<and>
          cell h b = Some (Block ns) \<and> length ns = unat s * 2 ^ k"
    if "k \<le> unat (index p)" for k
  proof -
    from sl that obtain b ns where
      "ds ! k = Some (b, 0)" "cell h b = Some (Block ns)" "length ns = unat s * 2 ^ k"
      by blast
    moreover have "get_slot h (blocks p) k = Inr (ds ! k)"
      using d ds lds i that by (simp add: get_slot_live)
    ultimately show ?thesis by simp
  qed
  moreover have "get_pool h pool = Inr p" using pool a by (simp add: get_pool_live)
  ultimately show ?thesis using sz by blast
qed

theorem block_sizes_double_witness:
  "pool_after 16 1 (Some (0, 0)) 3 ex_h4 \<and>
   (\<exists>p. get_pool ex_h4 (Some (0, 0)) = Inr p \<and>
      unat (size_f p) = unat (1 :: size_t) * 2 ^ unat (index p) \<and>
      (\<forall>k\<le>unat (index p). \<exists>b ns.
         get_slot ex_h4 (blocks p) k = Inr (Some (b, 0)) \<and>
         cell ex_h4 b = Some (Block ns) \<and> length ns = unat (1 :: size_t) * 2 ^ k))"
  using block_sizes_double [OF ex_after3] ex_after3 by blast

subsection \<open>Failure of data_pool_alloc\<close>

text \<open>
  C2. A pool made by \<open>data_pool_new\<close> and earlier calls of \<open>data_pool_alloc\<close>, whatever
  the caller has written to the payloads since, is a pool in use (\<open>pool_inv\<close>). When
  \<open>data_pool_alloc\<close> returns null on a pool in use, whatever its blocks hold, the store
  is as it was before the call: every allocation has its contents, the elements and
  their payloads and the pool struct included, and nothing was freed. The block in use
  was full, and the array of block pointers is used up (\<open>index + 1 = count\<close>, with
  \<open>count = 32\<close>), or a size check refused, or the system refused the memory. Whenever
  a pool's block is full and \<open>index + 1 = count\<close>, the call returns null and changes
  nothing, whatever else holds.
\<close>

theorem alloc_failure_leaves_pool:
  "(pool_after node_sz s pool n h \<longrightarrow> pool_inv s pool h) \<and>
   (pool_inv s pool h \<and> data_pool_alloc node_sz h pool = Inr (h', None) \<longrightarrow>
      cells h' = cells h \<and> frees h' = frees h \<and>
      (\<exists>p. get_pool h pool = Inr p \<and> get_pool h' pool = Inr p \<and> count p = 32 \<and>
         \<not> used p < size_f p \<and>
         (index p + 1 = count p \<or> \<not> can_multiply SIZE_MAX (size_f p) 2 \<or>
          \<not> can_multiply SIZE_MAX (size_f p * 2) node_sz \<or> \<not> (\<exists>g. grants h = True # g)))) \<and>
   (get_pool h pool = Inr q \<and> \<not> used q < size_f q \<and> index q + 1 = count q \<longrightarrow>
      data_pool_alloc node_sz h pool = Inr (h, None))"
proof -
  have in_use: "pool_inv s pool h" if "pool_after node_sz s pool n h"
    using pool_after_inv_first [OF that] by simp
  have full_dir: "data_pool_alloc node_sz h pool = Inr (h, None)"
    if "get_pool h pool = Inr q \<and> \<not> used q < size_f q \<and> index q + 1 = count q"
    using that by (simp add: data_pool_alloc_def)
  have frame: "cells h' = cells h \<and> frees h' = frees h \<and>
      (\<exists>p. get_pool h pool = Inr p \<and> get_pool h' pool = Inr p \<and> count p = 32 \<and>
         \<not> used p < size_f p \<and>
         (index p + 1 = count p \<or> \<not> can_multiply SIZE_MAX (size_f p) 2 \<or>
          \<not> can_multiply SIZE_MAX (size_f p * 2) node_sz \<or> \<not> (\<exists>g. grants h = True # g)))"
    if asm: "pool_inv s pool h \<and> data_pool_alloc node_sz h pool = Inr (h', None)"
  proof -
  from asm have inv: "pool_inv s pool h" by simp
  from asm have res: "data_pool_alloc node_sz h pool = Inr (h', None)" by simp
  from pool_inv_get_pool [OF inv] obtain p where gp: "get_pool h pool = Inr p" by blast
  have cnt: "count p = 32" using inv gp unfolding pool_inv_def by (auto simp: get_pool_live)
  have full: "\<not> used p < size_f p"
  proof
    assume "used p < size_f p"
    from pool_inv_take [OF inv gp this, of node_sz] res show False by auto
  qed
  have no: "index p + 1 = count p \<or> \<not> can_multiply SIZE_MAX (size_f p) 2 \<or>
          \<not> can_multiply SIZE_MAX (size_f p * 2) node_sz \<or> \<not> (\<exists>g. grants h = True # g)"
  proof (rule ccontr)
    assume n: "\<not> ?thesis"
    then obtain g where g: "grants h = True # g" by blast
    from n have "index p + 1 \<noteq> count p" "can_multiply SIZE_MAX (size_f p) 2"
      "can_multiply SIZE_MAX (size_f p * 2) node_sz" by blast+
    from pool_inv_grow [OF inv gp full this g] res show False by auto
  qed
  from pool_inv_refused [OF inv gp full no] res obtain g' where h': "h' = h\<lparr>grants := g'\<rparr>"
    by auto
  have "get_pool h' pool = Inr p" using gp by (simp add: h')
  then show ?thesis
    using gp cnt full no by (auto simp: h')
  qed
  from in_use frame full_dir show ?thesis by blast
qed

theorem alloc_failure_leaves_pool_witness:
  "pool_after 16 1 (Some (0, 0)) 1 ex_refused_data \<and>
   pool_inv 1 (Some (0, 0)) ex_refused_data \<and>
   get_node ex_refused_data (Some (2, 0)) = Inr \<lparr>head = True, next = None, entry_data = 7\<rparr> \<and>
   data_pool_alloc 16 ex_refused_data (Some (0, 0)) = Inr (ex_refused_data, None) \<and>
   (cells ex_refused_data = cells ex_refused_data \<and>
    frees ex_refused_data = frees ex_refused_data \<and>
    (\<exists>p. get_pool ex_refused_data (Some (0, 0)) = Inr p \<and>
       get_pool ex_refused_data (Some (0, 0)) = Inr p \<and> count p = 32 \<and>
       \<not> used p < size_f p \<and>
       (index p + 1 = count p \<or> \<not> can_multiply SIZE_MAX (size_f p) 2 \<or>
        \<not> can_multiply SIZE_MAX (size_f p * 2) 16 \<or>
        \<not> (\<exists>g. grants ex_refused_data = True # g)))) \<and>
   get_pool ex_full (Some (0, 0)) = Inr ex_full_pool \<and>
   \<not> used ex_full_pool < size_f ex_full_pool \<and>
   index ex_full_pool + 1 = count ex_full_pool \<and>
   data_pool_alloc 16 ex_full (Some (0, 0)) = Inr (ex_full, None)"
proof -
  note inst = alloc_failure_leaves_pool [where node_sz = 16 and s = 1
      and pool = "Some (0, 0)" and n = 1 and h = ex_refused_data and h' = ex_refused_data]
  have a: "pool_after 16 1 (Some (0, 0)) 1 ex_refused_data"
    by (rule ex_after_refused_data)
  have i: "pool_inv 1 (Some (0, 0)) ex_refused_data"
    by (rule inst [THEN conjunct1, THEN mp, OF a])
  have v: "get_node ex_refused_data (Some (2, 0)) =
      Inr \<lparr>head = True, next = None, entry_data = 7\<rparr>"
    by (simp add: ex_refused_data_def get_node_def cell_def)
  have b: "data_pool_alloc 16 ex_refused_data (Some (0, 0)) = Inr (ex_refused_data, None)"
    by (simp add: ex_refused_data_def ex_pool_def run_defs list_update_same_conv)
  have c: "get_pool ex_full (Some (0, 0)) = Inr ex_full_pool"
    by (simp add: ex_full_def get_pool_def cell_def)
  have d: "\<not> used ex_full_pool < size_f ex_full_pool"
    by (simp add: ex_full_pool_def)
  have e: "index ex_full_pool + 1 = count ex_full_pool"
    by (simp add: ex_full_pool_def)
  note left = inst [THEN conjunct2, THEN conjunct1, THEN mp, OF conjI [OF i b]]
  note right = alloc_failure_leaves_pool [where node_sz = 16 and pool = "Some (0, 0)"
      and h = ex_full and q = ex_full_pool,
      THEN conjunct2, THEN conjunct2, THEN mp, OF conjI [OF c conjI [OF d e]]]
  show ?thesis
    by (rule conjI [OF a conjI [OF i conjI [OF v conjI [OF b conjI [OF left conjI [OF c
      conjI [OF d conjI [OF e right]]]]]]]])
qed

subsection \<open>The overflow guard\<close>

text \<open>
  C3. \<open>can_multiply max 0 n\<close> is false for every \<open>max\<close> and \<open>n\<close>; for \<open>m > 0\<close> it is
  true exactly when \<open>n \<le> max / m\<close> in integer division, which is when the product
  \<open>m * n\<close> taken in the integers does not exceed \<open>max\<close>. The definition divides and
  compares; it contains no product.
\<close>

theorem can_multiply_spec:
  "can_multiply mx 0 n = False \<and>
   (0 < m \<longrightarrow>
      can_multiply mx m n = (unat n \<le> unat mx div unat m) \<and>
      can_multiply mx m n = (unat m * unat n \<le> unat mx))"
proof -
  have a: "can_multiply mx 0 n = False" by (simp add: can_multiply_def)
  have b: "can_multiply mx m n = (unat n \<le> unat mx div unat m)" if "0 < m"
    using that by (simp add: can_multiply_def word_le_nat_alt unat_div word_gt_0)
  have c: "can_multiply mx m n = (unat m * unat n \<le> unat mx)" if "0 < m"
    using that by (simp add: can_multiply_unat word_gt_0)
  from a b c show ?thesis by blast
qed

theorem can_multiply_spec_witness:
  "can_multiply SIZE_MAX 0 SIZE_MAX = False \<and> (0 < (2 :: size_t)) \<and>
   can_multiply SIZE_MAX 2 SIZE_MAX = (unat SIZE_MAX \<le> unat SIZE_MAX div unat (2 :: size_t)) \<and>
   can_multiply SIZE_MAX 2 SIZE_MAX = (unat (2 :: size_t) * unat SIZE_MAX \<le> unat SIZE_MAX) \<and>
   \<not> can_multiply SIZE_MAX 2 SIZE_MAX \<and> can_multiply SIZE_MAX 1 SIZE_MAX"
  using can_multiply_spec [where mx = SIZE_MAX and m = 2 and n = SIZE_MAX]
  by (simp add: can_multiply_def SIZE_MAX_def)

subsection \<open>data_pool_new\<close>

text \<open>
  C5, as stated: for every positive \<open>s\<close>, \<open>data_pool_new\<close> succeeds. It does not
  for \<open>s = 2 ^ 60\<close> with elements of 16 bytes, where \<open>s * 16\<close> does not fit
  \<open>size_t\<close>: the size check refuses, the pool struct and the array of block pointers
  are freed again and null is returned, although the system grants every request.
\<close>

theorem create_overflow_counterexample:
  "0 < (1152921504606846976 :: size_t) \<and>
   data_pool_new 16 ex_h0 1152921504606846976 = Inr (ex_undone, None)"
  by (simp add: ex_h0_def ex_undone_def run_defs destroy_return_null_def data_pool_destroy_def
      free_blocks.simps free_def)

text \<open>
  C5, amended. For every positive \<open>s\<close> such that \<open>s\<close> times the size of an element
  fits \<open>size_t\<close>, when the system grants the three requests for memory,
  \<open>data_pool_new\<close> returns a pool with \<open>count = 32\<close>, \<open>index = 0\<close>, \<open>size = s\<close>,
  \<open>used = 0\<close> whose block 0 has \<open>s\<close> elements, the first flagged \<open>head\<close>; and the
  first \<open>data_pool_alloc\<close> on it returns the first element of block 0, asks the
  system for nothing, and leaves \<open>index = 0\<close> and \<open>size = s\<close>, with \<open>used = 1\<close>.
\<close>

theorem create_then_first_alloc:
  assumes s: "0 < s" and cm: "can_multiply SIZE_MAX s node_sz"
    and g: "grants h = True # True # True # g"
  shows "\<exists>h1 pool p b ns h2 p2.
      data_pool_new node_sz h s = Inr (h1, pool) \<and> pool \<noteq> None \<and>
      get_pool h1 pool = Inr p \<and> count p = 32 \<and> index p = 0 \<and> size_f p = s \<and> used p = 0 \<and>
      get_slot h1 (blocks p) 0 = Inr (Some (b, 0)) \<and>
      cell h1 b = Some (Block ns) \<and> length ns = unat s \<and> head (ns ! 0) \<and>
      data_pool_alloc node_sz h1 pool = Inr (h2, Some (b, 0)) \<and>
      get_pool h2 pool = Inr p2 \<and> index p2 = 0 \<and> size_f p2 = s \<and> used p2 = 1 \<and>
      grants h2 = grants h1 \<and> length (cells h2) = length (cells h1)"
proof -
  let ?n = "length (cells h)"
  let ?p = "\<lparr>blocks = Some (?n + 1, 0), count = 32, index = 0, size_f = s, used = 0\<rparr>"
  let ?ns = "(replicate (unat s) zero_node)[0 := zero_node\<lparr>head := True\<rparr>]"
  have s0: "s \<noteq> 0" using s by simp
  from data_pool_new_ok [OF g s0 cm] obtain h1 where
    new: "data_pool_new node_sz h s = Inr (h1, Some (?n, 0))" and
    c: "cell h1 = (\<lambda>x.
             if x = ?n then Some (Pool ?p)
             else if x = ?n + 1 then Some (Dir ((replicate 32 None)[0 := Some (?n + 2, 0)]))
             else if x = ?n + 2 then Some (Block ?ns)
             else cell h x)"
    by blast
  have inv: "pool_inv s (Some (?n, 0)) h1"
    using data_pool_new_inv [OF new] by simp
  have gp: "get_pool h1 (Some (?n, 0)) = Inr ?p" by (simp add: get_pool_live c)
  have u: "used ?p < size_f ?p" using s by simp
  from pool_inv_take [OF inv gp u, of node_sz] obtain h2 b where
    al: "data_pool_alloc node_sz h1 (Some (?n, 0)) = Inr (h2, Some (b, unat (used ?p)))" and
    sl: "get_slot h1 (blocks ?p) (unat (index ?p)) = Inr (Some (b, 0))" and
    gp2: "get_pool h2 (Some (?n, 0)) = Inr (?p\<lparr>used := used ?p + 1\<rparr>)" and
    rest: "grants h2 = grants h1" "length (cells h2) = length (cells h1)"
    by blast
  have b: "b = ?n + 2" using sl by (simp add: get_slot_def c)
  have blk: "cell h1 b = Some (Block ?ns)" by (simp add: b c)
  have len: "length ?ns = unat s" "head (?ns ! 0)"
    using s by (simp_all add: unat_gt_0)
  show ?thesis
    using new gp sl blk len al gp2 rest by (auto simp: b)
qed

theorem create_then_first_alloc_witness:
  "0 < (1 :: size_t) \<and> can_multiply SIZE_MAX 1 16 \<and>
   grants ex_h0 = True # True # True # [True] \<and>
   (\<exists>h1 pool p b ns h2 p2.
      data_pool_new 16 ex_h0 1 = Inr (h1, pool) \<and> pool \<noteq> None \<and>
      get_pool h1 pool = Inr p \<and> count p = 32 \<and> index p = 0 \<and> size_f p = 1 \<and> used p = 0 \<and>
      get_slot h1 (blocks p) 0 = Inr (Some (b, 0)) \<and>
      cell h1 b = Some (Block ns) \<and> length ns = unat (1 :: size_t) \<and> head (ns ! 0) \<and>
      data_pool_alloc 16 h1 pool = Inr (h2, Some (b, 0)) \<and>
      get_pool h2 pool = Inr p2 \<and> index p2 = 0 \<and> size_f p2 = 1 \<and> used p2 = 1 \<and>
      grants h2 = grants h1 \<and> length (cells h2) = length (cells h1))"
proof -
  have a: "0 < (1 :: size_t)" by simp
  have b: "can_multiply SIZE_MAX 1 16" by (simp add: can_multiply_def SIZE_MAX_def)
  have c: "grants ex_h0 = True # True # True # [True]" by (simp add: ex_h0_def)
  from create_then_first_alloc [OF a b c] a b c show ?thesis by blast
qed

text \<open>
  C6. \<open>data_pool_new\<close> returns null for the size 0 and for every size \<open>sz\<close> such
  that \<open>sz\<close> times the size of an element exceeds \<open>SIZE_MAX\<close>. Whenever it returns
  null, whatever it had allocated is freed again, once, and nothing else is freed
  or written (\<open>undone\<close>). It never faults.
\<close>

theorem create_failure:
  "(sz = 0 \<or> unat SIZE_MAX < unat sz * unat node_sz \<longrightarrow>
      (\<exists>h'. data_pool_new node_sz h sz = Inr (h', None))) \<and>
   (data_pool_new node_sz h sz = Inr (h', None) \<longrightarrow> undone h h') \<and>
   (\<exists>r. data_pool_new node_sz h sz = Inr r)"
proof -
  have cases: "(\<exists>g. grants h = True # True # True # g) \<and> sz \<noteq> 0 \<and>
      can_multiply SIZE_MAX sz node_sz \<or>
      (\<exists>h'. data_pool_new node_sz h sz = Inr (h', None) \<and> undone h h')"
    by (rule data_pool_new_cases)
  have 1: "\<exists>h'. data_pool_new node_sz h sz = Inr (h', None)"
    if "sz = 0 \<or> unat SIZE_MAX < unat sz * unat node_sz"
  proof -
    from that have "sz = 0 \<or> \<not> can_multiply SIZE_MAX sz node_sz"
      by (auto simp: can_multiply_unat)
    with cases show ?thesis by blast
  qed
  have 2: "undone h h'" if r: "data_pool_new node_sz h sz = Inr (h', None)"
    using cases
  proof
    assume "(\<exists>g. grants h = True # True # True # g) \<and> sz \<noteq> 0 \<and>
      can_multiply SIZE_MAX sz node_sz"
    then obtain g where "grants h = True # True # True # g" "sz \<noteq> 0"
      "can_multiply SIZE_MAX sz node_sz" by blast
    from data_pool_new_ok [OF this] r show ?thesis by auto
  next
    assume "\<exists>h'. data_pool_new node_sz h sz = Inr (h', None) \<and> undone h h'"
    with r show ?thesis by auto
  qed
  have 3: "\<exists>r. data_pool_new node_sz h sz = Inr r"
    using cases
  proof
    assume "(\<exists>g. grants h = True # True # True # g) \<and> sz \<noteq> 0 \<and>
      can_multiply SIZE_MAX sz node_sz"
    then obtain g where "grants h = True # True # True # g" "sz \<noteq> 0"
      "can_multiply SIZE_MAX sz node_sz" by blast
    from data_pool_new_ok [OF this] show ?thesis by blast
  qed blast
  from 1 2 3 show ?thesis by blast
qed

theorem create_failure_witness:
  "((0 :: size_t) = 0 \<or> unat SIZE_MAX < unat (0 :: size_t) * unat (16 :: size_t)) \<and>
   data_pool_new 16 ex_h0 0 = Inr (ex_undone, None) \<and> undone ex_h0 ex_undone \<and>
   cell ex_undone = cell ex_h0 \<and> frees ex_undone = frees ex_h0 @ [1, 0]"
proof -
  have r: "data_pool_new 16 ex_h0 0 = Inr (ex_undone, None)"
    by (simp add: ex_h0_def ex_undone_def run_defs destroy_return_null_def data_pool_destroy_def
      free_blocks.simps free_def)
  from create_failure [where sz = 0 and node_sz = 16 and h = ex_h0 and h' = ex_undone] r
  have "undone ex_h0 ex_undone" by simp
  moreover from this have "cell ex_undone = cell ex_h0" by (simp add: undone_def)
  moreover have "frees ex_undone = frees ex_h0 @ [1, 0]" by (simp add: ex_undone_def ex_h0_def)
  ultimately show ?thesis using r by simp
qed

subsection \<open>data_pool_list_destroy\<close>

text \<open>
  C7. On a well-formed list, with fuel for as many rounds as the list has elements,
  \<open>data_pool_list_destroy\<close> returns true; it has freed the blocks of the list, each
  once and as a whole (by its first element), in the order of the list, and has
  changed nothing else. (The list that a pool has built is well-formed:
  \<open>pool_list_chain\<close>.)
\<close>

theorem list_destroy_well_formed:
  assumes "chain h list segs" and "sum_list (map snd segs) \<le> fuel"
  shows "\<exists>h'. data_pool_list_destroy fuel h list = Inr (h', True) \<and>
           frees h' = frees h @ map fst segs \<and> distinct (map fst segs) \<and>
           cell h' = (\<lambda>x. if x \<in> fst ` set segs then None else cell h x)"
proof -
  have "distinct (map fst segs)" using assms(1)
    by (induction segs arbitrary: list) fastforce+
  with list_destroy_chain [OF assms] show ?thesis by blast
qed

theorem list_destroy_well_formed_witness:
  "chain ex_h4 (Some (2, 0)) ex_segs \<and> sum_list (map snd ex_segs) \<le> 3 \<and>
   (\<exists>h'. data_pool_list_destroy 3 ex_h4 (Some (2, 0)) = Inr (h', True) \<and>
      frees h' = frees ex_h4 @ map fst ex_segs \<and> distinct (map fst ex_segs) \<and>
      cell h' = (\<lambda>x. if x \<in> fst ` set ex_segs then None else cell ex_h4 x))"
proof -
  have b: "sum_list (map snd ex_segs) \<le> 3" by (simp add: ex_segs_def)
  show ?thesis
    by (rule conjI [OF ex_chain conjI [OF b list_destroy_well_formed [OF ex_chain b]]])
qed

text \<open>
  C8, as stated: on a list where an element that starts a block is not flagged
  \<open>head\<close>, \<open>data_pool_list_destroy\<close> reports failure. On \<open>cx_list\<close>, where the first
  element of the second block is not flagged, it returns true: the search for the
  next head passes over the second block to the end of the list, the first block is
  freed and the second is left allocated.
\<close>

theorem list_destroy_unflagged_counterexample:
  "data_pool_list_destroy 5 cx_list (Some (0, 0)) = Inr (cx_list_after, True)"
  by (simp add: cx_list_def cx_list_after_def ex_node_def get_node_def cell_def free_def
      numeral_eq_Suc)

text \<open>
  C8, amended. \<open>data_pool_list_destroy\<close> returns false exactly when the element it
  is called with is not flagged \<open>head\<close>. It then returns at once and has freed
  nothing: whenever it returns false, the store is unchanged and the element it was
  called with is not a head. (An element found by the search for the next head is
  flagged, so no later round returns false.)
\<close>

theorem list_destroy_failure:
  "(get_node h (Some p) = Inr n \<and> \<not> head n \<longrightarrow>
      data_pool_list_destroy (Suc fuel) h (Some p) = Inr (h, False)) \<and>
   (data_pool_list_destroy fuel' h list = Inr (h', False) \<longrightarrow>
      h' = h \<and> (\<exists>q m. list = Some q \<and> get_node h (Some q) = Inr m \<and> \<not> head m))"
proof (rule conjI; rule impI)
  assume "get_node h (Some p) = Inr n \<and> \<not> head n"
  then show "data_pool_list_destroy (Suc fuel) h (Some p) = Inr (h, False)"
    by (simp add: list_destroy_not_head)
next
  assume "data_pool_list_destroy fuel' h list = Inr (h', False)"
  then show "h' = h \<and> (\<exists>q m. list = Some q \<and> get_node h (Some q) = Inr m \<and> \<not> head m)"
    by (rule list_destroy_False)
qed

theorem list_destroy_failure_witness:
  "(get_node cx_list (Some (1, 0)) = Inr (ex_node False (Some (1, 1))) \<and>
    \<not> head (ex_node False (Some (1, 1)))) \<and>
   data_pool_list_destroy (Suc 0) cx_list (Some (1, 0)) = Inr (cx_list, False) \<and>
   (cx_list = cx_list \<and>
    (\<exists>q m. Some (1, 0) = Some q \<and> get_node cx_list (Some q) = Inr m \<and> \<not> head m))"
proof -
  have a: "get_node cx_list (Some (1, 0)) = Inr (ex_node False (Some (1, 1)))"
    by (simp add: cx_list_def get_node_def cell_def)
  have b: "\<not> head (ex_node False (Some (1, 1)))" by (simp add: ex_node_def)
  from list_destroy_failure [where h = cx_list and p = "(1, 0)"
      and n = "ex_node False (Some (1, 1))" and fuel = 0 and fuel' = "Suc 0"
      and list = "Some (1, 0)" and h' = cx_list] a b
  show ?thesis by simp
qed

text \<open>
  C10. \<open>data_pool_list_destroy\<close> on the null pointer returns true and leaves the
  store as it is, with any fuel.
\<close>

theorem list_destroy_null:
  "data_pool_list_destroy fuel h None = Inr (h, True)"
  by simp

subsection \<open>data_pool_destroy\<close>

text \<open>
  C9. \<open>data_pool_destroy\<close> on the null pointer changes nothing. A pool made by
  \<open>data_pool_new\<close> and calls of \<open>data_pool_alloc\<close>, whatever the caller has written to
  the payloads since, is a pool in use (\<open>pool_inv\<close>). On a pool in use, whatever its
  blocks hold, \<open>data_pool_destroy\<close> with \<open>keep_list\<close> true frees the array of block
  pointers and the pool struct, these two and in this order; every other allocation
  is as before, so every element reads as before (\<open>head\<close>, \<open>next\<close> and payload), and
  what was a well-formed list still is. When \<open>n > 0\<close> elements have been handed out,
  the list from the first element of block 0 is a well-formed list of \<open>n\<close> elements
  before and after the call, and \<open>data_pool_list_destroy\<close> then frees it and returns
  true.
\<close>

theorem destroy_keep_list:
  "data_pool_destroy h None keep_list = Inr h \<and>
   (pool_after node_sz s pool n h \<longrightarrow> pool_inv s pool h) \<and>
   (pool_inv s pool h \<longrightarrow>
      (\<exists>h' a d p. pool = Some (a, 0) \<and> get_pool h pool = Inr p \<and> blocks p = Some (d, 0) \<and>
         data_pool_destroy h pool True = Inr h' \<and> frees h' = frees h @ [d, a] \<and>
         cell h' = (\<lambda>x. if x = a \<or> x = d then None else cell h x) \<and>
         get_node h' = get_node h \<and>
         (\<forall>list segs. chain h' list segs = chain h list segs))) \<and>
   (pool_after node_sz s pool n h \<and> 0 < n \<longrightarrow>
      (\<exists>h' p q segs h''. get_pool h pool = Inr p \<and> get_slot h (blocks p) 0 = Inr q \<and>
         data_pool_destroy h pool True = Inr h' \<and>
         chain h q segs \<and> chain h' q segs \<and> sum_list (map snd segs) = n \<and>
         data_pool_list_destroy n h' q = Inr (h'', True) \<and>
         frees h'' = frees h' @ map fst segs))"
proof -
  have null: "data_pool_destroy h None keep_list = Inr h"
    by (simp add: data_pool_destroy_def)
  have in_use: "pool_inv s pool h" if "pool_after node_sz s pool n h"
    using pool_after_inv_first [OF that] by simp
  have keep: "\<exists>h' a d p. pool = Some (a, 0) \<and> get_pool h pool = Inr p \<and>
         blocks p = Some (d, 0) \<and>
         data_pool_destroy h pool True = Inr h' \<and> frees h' = frees h @ [d, a] \<and>
         cell h' = (\<lambda>x. if x = a \<or> x = d then None else cell h x) \<and>
         get_node h' = get_node h \<and>
         (\<forall>list segs. chain h' list segs = chain h list segs)"
    if inv: "pool_inv s pool h"
  proof -
    from destroy_keep [OF inv] obtain h' a d p where
      *: "pool = Some (a, 0)" "get_pool h pool = Inr p" "blocks p = Some (d, 0)"
      "data_pool_destroy h pool True = Inr h'" "frees h' = frees h @ [d, a]"
      "cell h' = (\<lambda>x. if x = a \<or> x = d then None else cell h x)"
      "get_node h' = get_node h"
      by (elim exE conjE)
    from *(7) have "\<forall>list segs. chain h' list segs = chain h list segs"
      by (intro allI chain_cong)
    with * show ?thesis by (intro exI conjI)
  qed
  have detach: "\<exists>h' p q segs h''. get_pool h pool = Inr p \<and>
         get_slot h (blocks p) 0 = Inr q \<and>
         data_pool_destroy h pool True = Inr h' \<and>
         chain h q segs \<and> chain h' q segs \<and> sum_list (map snd segs) = n \<and>
         data_pool_list_destroy n h' q = Inr (h'', True) \<and>
         frees h'' = frees h' @ map fst segs"
    if after: "pool_after node_sz s pool n h \<and> 0 < n"
  proof -
    from after have pa: "pool_after node_sz s pool n h" and n: "0 < n" by simp_all
    from pool_list_chain [OF pa n] obtain p q segs where
      l: "get_pool h pool = Inr p" "get_slot h (blocks p) 0 = Inr q" "chain h q segs"
      "sum_list (map snd segs) = n"
      by (elim exE conjE)
    from keep [OF in_use [OF pa]] obtain h' where
      k: "data_pool_destroy h pool True = Inr h'"
      "\<forall>list segs. chain h' list segs = chain h list segs"
      by (elim exE conjE)
    from k(2) l(3) have c': "chain h' q segs" by simp
    have "sum_list (map snd segs) \<le> n" using l(4) by simp
    from list_destroy_chain [OF c' this] obtain h'' where
      "data_pool_list_destroy n h' q = Inr (h'', True)" "frees h'' = frees h' @ map fst segs"
      by (elim exE conjE)
    with l k(1) c' show ?thesis by (intro exI conjI)
  qed
  from null in_use keep detach show ?thesis by (intro conjI impI)
qed

theorem destroy_keep_list_witness:
  "pool_after 16 1 (Some (0, 0)) 3 ex_h4_data \<and> 0 < (3 :: nat) \<and>
   pool_inv 1 (Some (0, 0)) ex_h4_data \<and>
   get_node ex_h4_data (Some (2, 0)) = Inr \<lparr>head = True, next = Some (3, 0), entry_data = 7\<rparr> \<and>
   get_node ex_h4_data (Some (3, 1)) = Inr \<lparr>head = False, next = None, entry_data = 9\<rparr> \<and>
   (\<exists>h' a d p. Some (0, 0) = (Some (a, 0) :: ptr option) \<and>
      get_pool ex_h4_data (Some (0, 0)) = Inr p \<and> blocks p = Some (d, 0) \<and>
      data_pool_destroy ex_h4_data (Some (0, 0)) True = Inr h' \<and>
      frees h' = frees ex_h4_data @ [d, a] \<and>
      cell h' = (\<lambda>x. if x = a \<or> x = d then None else cell ex_h4_data x) \<and>
      get_node h' = get_node ex_h4_data \<and>
      (\<forall>list segs. chain h' list segs = chain ex_h4_data list segs)) \<and>
   (\<exists>h' p q segs h''. get_pool ex_h4_data (Some (0, 0)) = Inr p \<and>
      get_slot ex_h4_data (blocks p) 0 = Inr q \<and>
      data_pool_destroy ex_h4_data (Some (0, 0)) True = Inr h' \<and>
      chain ex_h4_data q segs \<and> chain h' q segs \<and> sum_list (map snd segs) = 3 \<and>
      data_pool_list_destroy 3 h' q = Inr (h'', True) \<and>
      frees h'' = frees h' @ map fst segs)"
proof -
  note inst = destroy_keep_list [where node_sz = 16 and s = 1 and pool = "Some (0, 0)"
      and n = 3 and h = ex_h4_data and keep_list = True]
  have a: "pool_after 16 1 (Some (0, 0)) 3 ex_h4_data"
    by (rule ex_after_h4_data)
  have pos: "0 < (3 :: nat)" by simp
  have i: "pool_inv 1 (Some (0, 0)) ex_h4_data"
    by (rule inst [THEN conjunct2, THEN conjunct1, THEN mp, OF a])
  have v: "get_node ex_h4_data (Some (2, 0)) =
      Inr \<lparr>head = True, next = Some (3, 0), entry_data = 7\<rparr>"
    by (simp add: ex_h4_data_def get_node_def cell_def)
  have w: "get_node ex_h4_data (Some (3, 1)) =
      Inr \<lparr>head = False, next = None, entry_data = 9\<rparr>"
    by (simp add: ex_h4_data_def get_node_def cell_def)
  show ?thesis
    by (rule conjI [OF a conjI [OF pos conjI [OF i conjI [OF v conjI [OF w conjI [
      OF inst [THEN conjunct2, THEN conjunct2, THEN conjunct1, THEN mp, OF i]
         inst [THEN conjunct2, THEN conjunct2, THEN conjunct2, THEN mp,
           OF conjI [OF a pos]]]]]]]])
qed

end
